theory Spec2Isabelle
  imports Main "HOL-Library.Word" "HOL-Library.AList"
begin

section \<open>Strings and header collections\<close>

text \<open>
  Go strings and byte slices are byte sequences. A header name or value is a
  \<open>string\<close> (a list of 8-bit characters); a request body is a list of bytes.
\<close>

type_synonym bytes = "8 word list"

text \<open>
  \<open>strings.ToLower\<close> on a header name. Header names that net/http hands to a handler
  consist of ASCII token bytes, where lowering a letter adds \<open>'a' - 'A'\<close>; other bytes
  are kept.
\<close>

definition lower_byte :: "char \<Rightarrow> char" where
  "lower_byte c =
     (let n = (of_char c :: nat) in if 65 \<le> n \<and> n \<le> 90 then char_of (n + 32) else c)"

definition upper_byte :: "char \<Rightarrow> char" where
  "upper_byte c =
     (let n = (of_char c :: nat) in if 97 \<le> n \<and> n \<le> 122 then char_of (n - 32) else c)"

definition ToLower :: "string \<Rightarrow> string" where
  "ToLower s = map lower_byte s"

text \<open>\<open>strings.EqualFold\<close> and \<open>strings.HasPrefix\<close>, on ASCII names.\<close>

definition EqualFold :: "string \<Rightarrow> string \<Rightarrow> bool" where
  "EqualFold s t = (ToLower s = ToLower t)"

definition HasPrefix :: "string \<Rightarrow> string \<Rightarrow> bool" where
  "HasPrefix s pre = (take (length pre) s = pre)"

text \<open>
  \<open>textproto.CanonicalMIMEHeaderKey\<close>, which \<open>Header.Get\<close>, \<open>Header.Set\<close> and
  \<open>Header.Add\<close> apply to their key: a name made of token bytes only gets an upper-case
  first letter and an upper-case letter after each dash, every other letter lower-case;
  a name holding any other byte is returned unchanged.
\<close>

definition validHeaderFieldByte :: "char \<Rightarrow> bool" where
  "validHeaderFieldByte c =
     (let n = (of_char c :: nat) in
        (48 \<le> n \<and> n \<le> 57) \<or> (65 \<le> n \<and> n \<le> 90) \<or> (97 \<le> n \<and> n \<le> 122) \<or>
        n \<in> set [33, 35, 36, 37, 38, 39, 42, 43, 45, 46, 94, 95, 96, 124, 126])"

fun canonical_from :: "bool \<Rightarrow> string \<Rightarrow> string" where
  "canonical_from upper [] = []"
| "canonical_from upper (c # cs) =
     (let c' = (if upper then upper_byte c else lower_byte c)
      in c' # canonical_from (c' = CHR ''-'') cs)"

definition CanonicalMIMEHeaderKey :: "string \<Rightarrow> string" where
  "CanonicalMIMEHeaderKey s =
     (if list_all validHeaderFieldByte s then canonical_from True s else s)"

text \<open>
  \<open>http.Header\<close> is a Go map from names to value lists. It is modelled as an
  association list with distinct names; ranging over it visits the entries in list
  order (Go leaves the order unspecified).
\<close>

type_synonym header = "(string \<times> string list) list"

definition Header_Get :: "header \<Rightarrow> string \<Rightarrow> string" where
  "Header_Get h key =
     (case map_of h (CanonicalMIMEHeaderKey key) of
        None \<Rightarrow> []
      | Some vs \<Rightarrow> (case vs of [] \<Rightarrow> [] | v # _ \<Rightarrow> v))"

definition Header_Set :: "header \<Rightarrow> string \<Rightarrow> string \<Rightarrow> header" where
  "Header_Set h key v = AList.update (CanonicalMIMEHeaderKey key) [v] h"

definition Header_Add :: "header \<Rightarrow> string \<Rightarrow> string \<Rightarrow> header" where
  "Header_Add h key v =
     (let k = CanonicalMIMEHeaderKey key in
        AList.update k ((case map_of h k of None \<Rightarrow> [] | Some vs \<Rightarrow> vs) @ [v]) h)"

text \<open>The inner loop \<open>for _, v := range vals { headers.Add(k, v) }\<close>.\<close>

fun add_values :: "header \<Rightarrow> string \<Rightarrow> string list \<Rightarrow> header" where
  "add_values h k [] = h"
| "add_values h k (v # vs) = add_values (Header_Add h k v) k vs"

text \<open>
  The header map of a message as net/http parses it off the wire: the names are
  distinct, made of token bytes, and stored in canonical form.
\<close>

definition wire_header :: "header \<Rightarrow> bool" where
  "wire_header h =
     (distinct (map fst h) \<and>
      list_all (\<lambda>(k, vs). k \<noteq> [] \<and> list_all validHeaderFieldByte k \<and> CanonicalMIMEHeaderKey k = k) h)"

section \<open>Ingress adapter: building the upstream headers\<close>

definition isHopByHop :: "string \<Rightarrow> bool" where
  "isHopByHop name =
     (ToLower name \<in> set [''connection'', ''keep-alive'', ''proxy-authenticate'',
        ''proxy-authorization'', ''te'', ''trailer'', ''transfer-encoding'', ''upgrade'',
        ''proxy-connection''])"

text \<open>
  The loop over the client's headers in \<open>handleAsync\<close> (and, duplicated, in the
  synchronous branch of \<open>HandleLogs\<close>).
\<close>

fun copy_request_headers :: "header \<Rightarrow> header \<Rightarrow> header" where
  "copy_request_headers headers [] = headers"
| "copy_request_headers headers ((k, vals) # rest) =
     (if vals = [] then copy_request_headers headers rest
      else if EqualFold k ''Host'' \<or> isHopByHop k then copy_request_headers headers rest
      else copy_request_headers (add_values headers k vals) rest)"

text \<open>
  Lines 153 to 193 of \<open>handleAsync\<close>: the content type of the original request, the
  copied headers, the default content type and the credential.
\<close>

definition forward_headers :: "string \<Rightarrow> header \<Rightarrow> header" where
  "forward_headers apiKey reqHeader =
     (let contentType = Header_Get reqHeader ''Content-Type'';
          contentType = (if contentType = [] then ''application/x-protobuf'' else contentType);
          headers = copy_request_headers [] reqHeader;
          headers = (if Header_Get headers ''Content-Type'' = []
                     then Header_Set headers ''Content-Type'' contentType else headers);
          headers = (if apiKey \<noteq> [] then Header_Set headers ''Authorization'' apiKey
                     else headers)
      in headers)"

text \<open>What the map holds under a name (\<open>h[k]\<close>, the empty list when absent).\<close>

definition Header_Values :: "header \<Rightarrow> string \<Rightarrow> string list" where
  "Header_Values h k = (case map_of h k of None \<Rightarrow> [] | Some vs \<Rightarrow> vs)"

text \<open>The loop's test for copying a client header: it has values and is neither Host nor hop-by-hop.\<close>

definition forwarded :: "string \<Rightarrow> string list \<Rightarrow> bool" where
  "forwarded k vals = (vals \<noteq> [] \<and> \<not> EqualFold k ''Host'' \<and> \<not> isHopByHop k)"

section \<open>Forwarding jobs, upstream requests and metrics\<close>

text \<open>\<open>worker.Job\<close>; \<open>hybridJob\<close> and the closure of the semaphore forwarder hold the same three values.\<close>

record Job =
  Body :: bytes
  TargetURL :: string
  Headers :: header

text \<open>The request a sender hands to \<open>client.Do\<close>.\<close>

record upstream_request =
  reqURL :: string
  reqPayload :: bytes
  reqHeaders :: header

text \<open>
  What the upstream side does with one job: \<open>http.NewRequest\<close> fails, \<open>client.Do\<close>
  fails, or a response with a status code arrives.
\<close>

datatype outcome = CreateFails | DoFails | Responds int

text \<open>The operations a sender applies to a response body.\<close>

datatype body_op = BodyRead | BodyClose

text \<open>
  The process-wide counters and gauge of package \<open>metrics\<close>, and the effects on the
  outside: the requests given to \<open>client.Do\<close>, in order, and, for every response
  received, the operations applied to its body.
\<close>

record world =
  JobsProcessedCounter :: nat
  JobsFailedCounter :: nat
  ActiveWorkersGauge :: int
  posts :: "upstream_request list"
  bodyOps :: "body_op list list"

definition world0 :: world where
  "world0 = \<lparr>JobsProcessedCounter = 0, JobsFailedCounter = 0, ActiveWorkersGauge = 0,
             posts = [], bodyOps = []\<rparr>"

text \<open>\<open>for key, values := range job.Headers { for _, v := range values { req.Header.Add(key, v) } }\<close>\<close>

fun copy_job_headers :: "header \<Rightarrow> header \<Rightarrow> header" where
  "copy_job_headers dst [] = dst"
| "copy_job_headers dst ((key, values) # rest) =
     copy_job_headers (add_values dst key values) rest"

definition new_request :: "Job \<Rightarrow> upstream_request" where
  "new_request job =
     \<lparr>reqURL = TargetURL job, reqPayload = Body job,
      reqHeaders = copy_job_headers [] (Headers job)\<rparr>"

text \<open>
  The body of a sender between taking a job and releasing its permit or token: build the
  request, send it, close the response body, count the outcome. The three forwarders
  each hold a copy of this code.
\<close>

definition send_job :: "outcome \<Rightarrow> Job \<Rightarrow> world \<Rightarrow> world" where
  "send_job out job w =
     (case out of
        CreateFails \<Rightarrow> w\<lparr>JobsFailedCounter := JobsFailedCounter w + 1\<rparr>
      | DoFails \<Rightarrow>
          w\<lparr>posts := posts w @ [new_request job],
            JobsFailedCounter := JobsFailedCounter w + 1\<rparr>
      | Responds StatusCode \<Rightarrow>
          (let w = w\<lparr>posts := posts w @ [new_request job],
                      bodyOps := bodyOps w @ [[BodyClose]]\<rparr>
           in if StatusCode < 200 \<or> StatusCode \<ge> 300
              then w\<lparr>JobsFailedCounter := JobsFailedCounter w + 1\<rparr>
              else w\<lparr>JobsProcessedCounter := JobsProcessedCounter w + 1\<rparr>))"

text \<open>How a call of \<open>Submit\<close> ends: it returns nil or an error, it panics, or it blocks.\<close>

datatype call = ReturnsNil | ReturnsErr string | Panics string | Blocks

datatype stop_phase = NotStopped | StopWaiting | StopDone | StopTimedOut

section \<open>Pooled forwarder (\<open>worker.Pool\<close>)\<close>

datatype wstate = Idle | Busy Job | Exited

text \<open>
  \<open>jobQueue\<close> is the buffer of the channel and \<open>jobQueueCap\<close> its capacity;
  \<open>jobQueueSenders\<close> are the jobs of the \<open>SubmitJob\<close> calls that hold a permit and are
  blocked in \<open>p.jobQueue <- job\<close> on a full buffer, in arrival order. \<open>permits\<close> is the
  number of values in the permits channel. \<open>workers\<close> is empty until \<open>Start\<close>.
  \<open>stopPhase\<close> records \<open>stopOnce\<close> and how the wait inside \<open>Stop\<close> ended.
\<close>

record Pool =
  workerCount :: nat
  jobQueueCap :: nat
  jobQueue :: "Job list"
  jobQueueSenders :: "Job list"
  jobQueueClosed :: bool
  permitsCap :: nat
  permits :: nat
  workers :: "wstate list"
  startOnce :: bool
  stopPhase :: stop_phase
  env :: world

definition NewPool :: "nat \<Rightarrow> int \<Rightarrow> int \<Rightarrow> Pool" where
  "NewPool NumCPU workerCount0 jobQueueSize0 =
     (let wc = (if workerCount0 \<le> 0 then 50 * int NumCPU else workerCount0);
          qs = (if jobQueueSize0 \<le> 0 then 10000 else jobQueueSize0)
      in \<lparr>workerCount = nat wc, jobQueueCap = nat qs, jobQueue = [], jobQueueSenders = [],
          jobQueueClosed = False, permitsCap = nat (wc + qs), permits = 0, workers = [],
          startOnce = False, stopPhase = NotStopped, env = world0\<rparr>)"

definition Pool_Start :: "Pool \<Rightarrow> Pool" where
  "Pool_Start p =
     (if startOnce p then p
      else p\<lparr>startOnce := True, workers := replicate (workerCount p) Idle\<rparr>)"

text \<open>
  \<open>Stop\<close> up to its wait: the first call closes the job queue, at which the senders
  blocked on it panic; a later call does nothing.
\<close>

definition Pool_Stop_close :: "Pool \<Rightarrow> Pool" where
  "Pool_Stop_close p =
     (if stopPhase p \<noteq> NotStopped then p
      else p\<lparr>jobQueueClosed := True, jobQueueSenders := [], stopPhase := StopWaiting\<rparr>)"

text \<open>
  The wait of \<open>Stop\<close> ends when the wait group is at zero (every started worker has
  left its loop), or when the shutdown timeout fires, whatever the workers are doing.
\<close>

definition Pool_Stop_done :: "Pool \<Rightarrow> Pool option" where
  "Pool_Stop_done p =
     (if stopPhase p = StopWaiting \<and> list_all (\<lambda>w. w = Exited) (workers p)
      then Some (p\<lparr>stopPhase := StopDone\<rparr>) else None)"

definition Pool_Stop_timeout :: "Pool \<Rightarrow> Pool option" where
  "Pool_Stop_timeout p =
     (if stopPhase p = StopWaiting then Some (p\<lparr>stopPhase := StopTimedOut\<rparr>) else None)"

definition SubmitJob :: "Job \<Rightarrow> Pool \<Rightarrow> call \<times> Pool" where
  "SubmitJob job p =
     (if permits p < permitsCap p then
        (let p = p\<lparr>permits := permits p + 1\<rparr> in
           if jobQueueClosed p then (Panics ''send on closed channel'', p)
           else if length (jobQueue p) < jobQueueCap p
             then (ReturnsNil, p\<lparr>jobQueue := jobQueue p @ [job]\<rparr>)
           else (Blocks, p\<lparr>jobQueueSenders := jobQueueSenders p @ [job]\<rparr>))
      else (ReturnsErr ''worker pool queue full'', p))"

text \<open>
  Worker \<open>wid\<close> receives the next job from the queue (the oldest blocked sender, if any,
  then completes its send and its \<open>SubmitJob\<close> returns nil) and increments the gauge.
\<close>

definition Pool_worker_recv :: "nat \<Rightarrow> Pool \<Rightarrow> Pool option" where
  "Pool_worker_recv wid p =
     (if wid < length (workers p) \<and> workers p ! wid = Idle then
        (case jobQueue p of
           [] \<Rightarrow> None
         | job # rest \<Rightarrow>
             Some (p\<lparr>jobQueue := rest @ take 1 (jobQueueSenders p),
                     jobQueueSenders := drop 1 (jobQueueSenders p),
                     workers := (workers p)[wid := Busy job],
                     env := (env p)\<lparr>ActiveWorkersGauge := ActiveWorkersGauge (env p) + 1\<rparr>\<rparr>))
      else None)"

text \<open>
  Worker \<open>wid\<close> runs the rest of the loop body for its job: the send, the counter, the
  gauge decrement and the release of one permit, on each of the three paths.
\<close>

definition Pool_worker_send :: "nat \<Rightarrow> outcome \<Rightarrow> Pool \<Rightarrow> Pool option" where
  "Pool_worker_send wid out p =
     (if wid < length (workers p) then
        (case workers p ! wid of
           Busy job \<Rightarrow>
             (let w = send_job out job (env p);
                  w = w\<lparr>ActiveWorkersGauge := ActiveWorkersGauge w - 1\<rparr>
              in Some (p\<lparr>env := w, permits := permits p - 1,
                         workers := (workers p)[wid := Idle]\<rparr>))
         | _ \<Rightarrow> None)
      else None)"

text \<open>Worker \<open>wid\<close> leaves \<open>for job := range p.jobQueue\<close>: the queue is closed and empty.\<close>

definition Pool_worker_exit :: "nat \<Rightarrow> Pool \<Rightarrow> Pool option" where
  "Pool_worker_exit wid p =
     (if wid < length (workers p) \<and> workers p ! wid = Idle \<and> jobQueue p = [] \<and> jobQueueClosed p
      then Some (p\<lparr>workers := (workers p)[wid := Exited]\<rparr>) else None)"

datatype pool_event =
    PStart | PStopClose | PStopDone | PStopTimeout
  | PSubmit Job | PRecv nat | PSend nat outcome | PExit nat

fun pool_step :: "pool_event \<Rightarrow> Pool \<Rightarrow> Pool option" where
  "pool_step PStart p = Some (Pool_Start p)"
| "pool_step PStopClose p = Some (Pool_Stop_close p)"
| "pool_step PStopDone p = Pool_Stop_done p"
| "pool_step PStopTimeout p = Pool_Stop_timeout p"
| "pool_step (PSubmit job) p = Some (snd (SubmitJob job p))"
| "pool_step (PRecv wid) p = Pool_worker_recv wid p"
| "pool_step (PSend wid out) p = Pool_worker_send wid out p"
| "pool_step (PExit wid) p = Pool_worker_exit wid p"

text \<open>A run is a sequence of events, each enabled in the state the previous ones left.\<close>

fun pool_run :: "pool_event list \<Rightarrow> Pool \<Rightarrow> Pool option" where
  "pool_run [] p = Some p"
| "pool_run (e # es) p = (case pool_step e p of None \<Rightarrow> None | Some p' \<Rightarrow> pool_run es p')"

definition busy :: "wstate \<Rightarrow> bool" where
  "busy w = (case w of Busy _ \<Rightarrow> True | _ \<Rightarrow> False)"

text \<open>
  The tasks that hold a permit: buffered in the queue, in a \<open>SubmitJob\<close> call that has
  acquired its permit and is blocked handing its job to the full queue, or with a worker.
\<close>

definition holding_permit :: "Pool \<Rightarrow> nat" where
  "holding_permit p =
     length (jobQueue p) + length (jobQueueSenders p) + length (filter busy (workers p))"

text \<open>The tasks queued in the buffer or in flight with a worker.\<close>

definition queued_in_flight :: "Pool \<Rightarrow> nat" where
  "queued_in_flight p = length (jobQueue p) + length (filter busy (workers p))"

section \<open>Semaphore forwarder\<close>

text \<open>
  Every accepted \<open>Submit\<close> spawns a goroutine: it waits for a token, sends, and is
  finished. The wait group counts the goroutines that are not finished.
  \<open>Submit\<close> reads \<open>stopped\<close> first and calls \<open>wg.Add(1)\<close> and \<open>go\<close> later, with
  no lock around the two: \<open>submitting\<close> holds the jobs of the calls that have read
  \<open>stopped\<close> as false and have not yet reached \<open>wg.Add(1)\<close>. The wait group does not
  count them.
\<close>

datatype gstate = Waiting Job | Sending Job | Finished

record SemaphoreForwarder =
  maxConcurrent :: nat
  tokens :: nat
  waiters :: int
  goroutines :: "gstate list"
  submitting :: "Job list"
  stopped :: bool
  s_stopPhase :: stop_phase
  s_env :: world

definition NewSemaphoreForwarder :: "int \<Rightarrow> SemaphoreForwarder" where
  "NewSemaphoreForwarder maxConcurrent0 =
     (let mc = (if maxConcurrent0 \<le> 0 then 10000 else maxConcurrent0)
      in \<lparr>maxConcurrent = nat mc, tokens = 0, waiters = 0, goroutines = [],
          submitting = [], stopped = False, s_stopPhase = NotStopped, s_env = world0\<rparr>)"

text \<open>\<open>Start\<close> only logs.\<close>

definition Semaphore_Start :: "SemaphoreForwarder \<Rightarrow> SemaphoreForwarder" where
  "Semaphore_Start s = s"

definition Semaphore_Stop_store :: "SemaphoreForwarder \<Rightarrow> SemaphoreForwarder" where
  "Semaphore_Stop_store s =
     (if s_stopPhase s \<noteq> NotStopped then s
      else s\<lparr>stopped := True, s_stopPhase := StopWaiting\<rparr>)"

definition Semaphore_Stop_done :: "SemaphoreForwarder \<Rightarrow> SemaphoreForwarder option" where
  "Semaphore_Stop_done s =
     (if s_stopPhase s = StopWaiting \<and> list_all (\<lambda>g. g = Finished) (goroutines s)
      then Some (s\<lparr>s_stopPhase := StopDone\<rparr>) else None)"

definition Semaphore_Stop_timeout :: "SemaphoreForwarder \<Rightarrow> SemaphoreForwarder option" where
  "Semaphore_Stop_timeout s =
     (if s_stopPhase s = StopWaiting then Some (s\<lparr>s_stopPhase := StopTimedOut\<rparr>) else None)"

text \<open>
  The two steps of \<open>Submit\<close>. First the call reads \<open>stopped\<close>: when it is set the
  call returns nil and nothing happens; otherwise the call goes on. Then the call that
  went on, the \<open>k\<close>-th of those under way, does \<open>wg.Add(1)\<close>, spawns its goroutine
  (whose first statement, \<open>waiters.Inc()\<close>, is taken together with the spawn) and returns
  nil. Other steps, those of \<open>Stop\<close> among them, can fall between the two.
\<close>

definition Semaphore_Submit_load ::
  "bytes \<Rightarrow> string \<Rightarrow> header \<Rightarrow> SemaphoreForwarder \<Rightarrow> SemaphoreForwarder" where
  "Semaphore_Submit_load body targetURL headers s =
     (if stopped s then s
      else s\<lparr>submitting := submitting s @
                 [\<lparr>Body = body, TargetURL = targetURL, Headers = headers\<rparr>]\<rparr>)"

definition Semaphore_Submit_go :: "nat \<Rightarrow> SemaphoreForwarder \<Rightarrow> SemaphoreForwarder option" where
  "Semaphore_Submit_go k s =
     (if k < length (submitting s) then
        Some (s\<lparr>goroutines := goroutines s @ [Waiting (submitting s ! k)],
                waiters := waiters s + 1,
                submitting := take k (submitting s) @ drop (Suc k) (submitting s)\<rparr>)
      else None)"

text \<open>
  A call of \<open>Submit\<close> that runs from its first statement to its return with no other
  step in between, and what it returns.
\<close>

definition Semaphore_Submit ::
  "bytes \<Rightarrow> string \<Rightarrow> header \<Rightarrow> SemaphoreForwarder \<Rightarrow> call \<times> SemaphoreForwarder" where
  "Semaphore_Submit body targetURL headers s =
     (if stopped s then (ReturnsNil, s)
      else (ReturnsNil,
            s\<lparr>goroutines := goroutines s @
                 [Waiting \<lparr>Body = body, TargetURL = targetURL, Headers = headers\<rparr>],
              waiters := waiters s + 1\<rparr>))"

text \<open>Goroutine \<open>g\<close> acquires a token: \<open>s.tokens <- struct{}{}\<close>, then the gauge.\<close>

definition Semaphore_acquire :: "nat \<Rightarrow> SemaphoreForwarder \<Rightarrow> SemaphoreForwarder option" where
  "Semaphore_acquire g s =
     (if g < length (goroutines s) \<and> tokens s < maxConcurrent s then
        (case goroutines s ! g of
           Waiting job \<Rightarrow>
             Some (s\<lparr>tokens := tokens s + 1, waiters := waiters s - 1,
                     goroutines := (goroutines s)[g := Sending job],
                     s_env := (s_env s)\<lparr>ActiveWorkersGauge := ActiveWorkersGauge (s_env s) + 1\<rparr>\<rparr>)
         | _ \<Rightarrow> None)
      else None)"

text \<open>Goroutine \<open>g\<close> sends and returns; the deferred calls run on every path.\<close>

definition Semaphore_send ::
  "nat \<Rightarrow> outcome \<Rightarrow> SemaphoreForwarder \<Rightarrow> SemaphoreForwarder option" where
  "Semaphore_send g out s =
     (if g < length (goroutines s) then
        (case goroutines s ! g of
           Sending job \<Rightarrow>
             (let w = send_job out job (s_env s);
                  w = w\<lparr>ActiveWorkersGauge := ActiveWorkersGauge w - 1\<rparr>
              in Some (s\<lparr>s_env := w, tokens := tokens s - 1,
                         goroutines := (goroutines s)[g := Finished]\<rparr>))
         | _ \<Rightarrow> None)
      else None)"

datatype sem_event =
    SStart | SStopStore | SStopDone | SStopTimeout
  | SSubmit bytes string header | SSubmitLoad bytes string header | SSubmitGo nat
  | SAcquire nat | SSend nat outcome

fun sem_step :: "sem_event \<Rightarrow> SemaphoreForwarder \<Rightarrow> SemaphoreForwarder option" where
  "sem_step SStart s = Some (Semaphore_Start s)"
| "sem_step SStopStore s = Some (Semaphore_Stop_store s)"
| "sem_step SStopDone s = Semaphore_Stop_done s"
| "sem_step SStopTimeout s = Semaphore_Stop_timeout s"
| "sem_step (SSubmit body targetURL headers) s =
     Some (snd (Semaphore_Submit body targetURL headers s))"
| "sem_step (SSubmitLoad body targetURL headers) s =
     Some (Semaphore_Submit_load body targetURL headers s)"
| "sem_step (SSubmitGo k) s = Semaphore_Submit_go k s"
| "sem_step (SAcquire g) s = Semaphore_acquire g s"
| "sem_step (SSend g out) s = Semaphore_send g out s"

fun sem_run :: "sem_event list \<Rightarrow> SemaphoreForwarder \<Rightarrow> SemaphoreForwarder option" where
  "sem_run [] s = Some s"
| "sem_run (e # es) s = (case sem_step e s of None \<Rightarrow> None | Some s' \<Rightarrow> sem_run es s')"

section \<open>Hybrid forwarder\<close>

text \<open>
  A dispatcher worker is idle, holds a job while it waits for a token, or has left its
  loop. A detached sender is in flight or done; \<open>sendWG\<close> counts those in flight.
\<close>

datatype dstate = DIdle | DHolding Job | DExited

datatype sender = InFlight Job | SenderDone

record HybridForwarder =
  h_workerCount :: nat
  h_jobQueueCap :: nat
  h_jobQueue :: "Job list"
  h_jobQueueClosed :: bool
  h_tokensCap :: nat
  h_tokens :: nat
  h_workers :: "dstate list"
  h_senders :: "sender list"
  h_startOnce :: bool
  h_stopped :: bool
  h_stopPhase :: stop_phase
  h_env :: world

definition NewHybridForwarder :: "int \<Rightarrow> int \<Rightarrow> int \<Rightarrow> HybridForwarder" where
  "NewHybridForwarder workerCount0 jobQueueSize0 maxConcurrent0 =
     (let wc = (if workerCount0 \<le> 0 then 1 else workerCount0);
          qs = (if jobQueueSize0 \<le> 0 then 10000 else jobQueueSize0);
          mc = (if maxConcurrent0 \<le> 0 then 10000 else maxConcurrent0)
      in \<lparr>h_workerCount = nat wc, h_jobQueueCap = nat qs, h_jobQueue = [],
          h_jobQueueClosed = False, h_tokensCap = nat mc, h_tokens = 0, h_workers = [],
          h_senders = [], h_startOnce = False, h_stopped = False,
          h_stopPhase = NotStopped, h_env = world0\<rparr>)"

definition Hybrid_Start :: "HybridForwarder \<Rightarrow> HybridForwarder" where
  "Hybrid_Start h =
     (if h_startOnce h then h
      else h\<lparr>h_startOnce := True, h_workers := replicate (h_workerCount h) DIdle\<rparr>)"

definition Hybrid_Stop_close :: "HybridForwarder \<Rightarrow> HybridForwarder" where
  "Hybrid_Stop_close h =
     (if h_stopPhase h \<noteq> NotStopped then h
      else h\<lparr>h_stopped := True, h_jobQueueClosed := True, h_stopPhase := StopWaiting\<rparr>)"

definition Hybrid_Stop_done :: "HybridForwarder \<Rightarrow> HybridForwarder option" where
  "Hybrid_Stop_done h =
     (if h_stopPhase h = StopWaiting \<and> list_all (\<lambda>w. w = DExited) (h_workers h) \<and>
         list_all (\<lambda>x. x = SenderDone) (h_senders h)
      then Some (h\<lparr>h_stopPhase := StopDone\<rparr>) else None)"

definition Hybrid_Stop_timeout :: "HybridForwarder \<Rightarrow> HybridForwarder option" where
  "Hybrid_Stop_timeout h =
     (if h_stopPhase h = StopWaiting then Some (h\<lparr>h_stopPhase := StopTimedOut\<rparr>) else None)"

definition Hybrid_Submit ::
  "bytes \<Rightarrow> string \<Rightarrow> header \<Rightarrow> HybridForwarder \<Rightarrow> call \<times> HybridForwarder" where
  "Hybrid_Submit body targetURL headers h =
     (if h_stopped h then (ReturnsErr ''hybrid forwarder stopped'', h)
      else
        (let job = \<lparr>Body = body, TargetURL = targetURL, Headers = headers\<rparr> in
           if h_jobQueueClosed h then (Panics ''send on closed channel'', h)
           else if length (h_jobQueue h) < h_jobQueueCap h
             then (ReturnsNil, h\<lparr>h_jobQueue := h_jobQueue h @ [job]\<rparr>)
           else (ReturnsErr ''hybrid queue full'', h)))"

definition Hybrid_worker_recv :: "nat \<Rightarrow> HybridForwarder \<Rightarrow> HybridForwarder option" where
  "Hybrid_worker_recv wid h =
     (if wid < length (h_workers h) \<and> h_workers h ! wid = DIdle then
        (case h_jobQueue h of
           [] \<Rightarrow> None
         | job # rest \<Rightarrow>
             Some (h\<lparr>h_jobQueue := rest, h_workers := (h_workers h)[wid := DHolding job]\<rparr>))
      else None)"

text \<open>
  Worker \<open>wid\<close> acquires a token and spawns the sender for its job, whose first
  statement increments the gauge.
\<close>

definition Hybrid_worker_spawn :: "nat \<Rightarrow> HybridForwarder \<Rightarrow> HybridForwarder option" where
  "Hybrid_worker_spawn wid h =
     (if wid < length (h_workers h) \<and> h_tokens h < h_tokensCap h then
        (case h_workers h ! wid of
           DHolding job \<Rightarrow>
             Some (h\<lparr>h_tokens := h_tokens h + 1,
                     h_senders := h_senders h @ [InFlight job],
                     h_workers := (h_workers h)[wid := DIdle],
                     h_env := (h_env h)\<lparr>ActiveWorkersGauge := ActiveWorkersGauge (h_env h) + 1\<rparr>\<rparr>)
         | _ \<Rightarrow> None)
      else None)"

definition Hybrid_send :: "nat \<Rightarrow> outcome \<Rightarrow> HybridForwarder \<Rightarrow> HybridForwarder option" where
  "Hybrid_send k out h =
     (if k < length (h_senders h) then
        (case h_senders h ! k of
           InFlight job \<Rightarrow>
             (let w = send_job out job (h_env h);
                  w = w\<lparr>ActiveWorkersGauge := ActiveWorkersGauge w - 1\<rparr>
              in Some (h\<lparr>h_env := w, h_tokens := h_tokens h - 1,
                         h_senders := (h_senders h)[k := SenderDone]\<rparr>))
         | _ \<Rightarrow> None)
      else None)"

definition Hybrid_worker_exit :: "nat \<Rightarrow> HybridForwarder \<Rightarrow> HybridForwarder option" where
  "Hybrid_worker_exit wid h =
     (if wid < length (h_workers h) \<and> h_workers h ! wid = DIdle \<and> h_jobQueue h = [] \<and>
         h_jobQueueClosed h
      then Some (h\<lparr>h_workers := (h_workers h)[wid := DExited]\<rparr>) else None)"

datatype hyb_event =
    HStart | HStopClose | HStopDone | HStopTimeout
  | HSubmit bytes string header | HRecv nat | HSpawn nat | HSend nat outcome | HExit nat

fun hyb_step :: "hyb_event \<Rightarrow> HybridForwarder \<Rightarrow> HybridForwarder option" where
  "hyb_step HStart h = Some (Hybrid_Start h)"
| "hyb_step HStopClose h = Some (Hybrid_Stop_close h)"
| "hyb_step HStopDone h = Hybrid_Stop_done h"
| "hyb_step HStopTimeout h = Hybrid_Stop_timeout h"
| "hyb_step (HSubmit body targetURL headers) h =
     Some (snd (Hybrid_Submit body targetURL headers h))"
| "hyb_step (HRecv wid) h = Hybrid_worker_recv wid h"
| "hyb_step (HSpawn wid) h = Hybrid_worker_spawn wid h"
| "hyb_step (HSend k out) h = Hybrid_send k out h"
| "hyb_step (HExit wid) h = Hybrid_worker_exit wid h"

fun hyb_run :: "hyb_event list \<Rightarrow> HybridForwarder \<Rightarrow> HybridForwarder option" where
  "hyb_run [] h = Some h"
| "hyb_run (e # es) h = (case hyb_step e h of None \<Rightarrow> None | Some h' \<Rightarrow> hyb_run es h')"

section \<open>The Forwarder interface\<close>

text \<open>\<open>PoolForwarder\<close> wraps a pool pointer, which may be nil.\<close>

datatype forwarder =
    PoolForwarder "Pool option"
  | SemaphoreFwd SemaphoreForwarder
  | HybridFwd HybridForwarder

definition PoolForwarder_Submit ::
  "bytes \<Rightarrow> string \<Rightarrow> header \<Rightarrow> Pool option \<Rightarrow> call \<times> Pool option" where
  "PoolForwarder_Submit body targetURL headers pool =
     (case pool of
        None \<Rightarrow> (ReturnsNil, None)
      | Some p \<Rightarrow>
          (let (r, p') = SubmitJob \<lparr>Body = body, TargetURL = targetURL, Headers = headers\<rparr> p
           in (r, Some p')))"

definition Forwarder_Submit ::
  "bytes \<Rightarrow> string \<Rightarrow> header \<Rightarrow> forwarder \<Rightarrow> call \<times> forwarder" where
  "Forwarder_Submit body targetURL headers f =
     (case f of
        PoolForwarder pool \<Rightarrow>
          (let (r, pool') = PoolForwarder_Submit body targetURL headers pool
           in (r, PoolForwarder pool'))
      | SemaphoreFwd s \<Rightarrow>
          (let (r, s') = Semaphore_Submit body targetURL headers s in (r, SemaphoreFwd s'))
      | HybridFwd h \<Rightarrow>
          (let (r, h') = Hybrid_Submit body targetURL headers h in (r, HybridFwd h')))"

section \<open>Proxy handler\<close>

record ProxyHandler =
  targetURL :: string
  apiKey :: string
  syncLogs :: bool

text \<open>
  The incoming request as the handler sees it: what \<open>io.ReadAll\<close> gives for its
  body (an error or the bytes) and its header map.
\<close>

record Request =
  reqBody :: "string + bytes"
  reqHeader :: header

text \<open>
  How a handler ends: \<open>c.NoContent(status)\<close>; the upstream response passed on
  (status, response headers, body); the panic of \<open>Submit\<close> unwinding; or suspended
  inside a \<open>Submit\<close> that blocks (which replies 202 when its send completes).
\<close>

datatype reply = NoContent nat | Proxied int header bytes | Unwinds string | Suspended

definition reply_of_submit :: "call \<Rightarrow> reply" where
  "reply_of_submit r =
     (case r of
        ReturnsErr err \<Rightarrow> NoContent 503
      | ReturnsNil \<Rightarrow> NoContent 202
      | Panics msg \<Rightarrow> Unwinds msg
      | Blocks \<Rightarrow> Suspended)"

definition handleAsync ::
  "ProxyHandler \<Rightarrow> forwarder \<Rightarrow> Request \<Rightarrow> string \<Rightarrow> reply \<times> forwarder" where
  "handleAsync h fwd c path =
     (case reqBody c of
        Inl err \<Rightarrow> (NoContent 400, fwd)
      | Inr body \<Rightarrow>
          (let headers = forward_headers (apiKey h) (reqHeader c);
               (err, fwd') = Forwarder_Submit body (targetURL h @ path) headers fwd
           in (reply_of_submit err, fwd')))"

text \<open>The task \<open>handleAsync\<close> submits for a request whose body could be read.\<close>

definition submitted_job :: "ProxyHandler \<Rightarrow> Request \<Rightarrow> string \<Rightarrow> Job option" where
  "submitted_job h c path =
     (case reqBody c of
        Inl err \<Rightarrow> None
      | Inr body \<Rightarrow>
          Some \<lparr>Body = body, TargetURL = targetURL h @ path,
                Headers = forward_headers (apiKey h) (reqHeader c)\<rparr>)"

definition HandleTraces ::
  "ProxyHandler \<Rightarrow> forwarder \<Rightarrow> Request \<Rightarrow> reply \<times> forwarder" where
  "HandleTraces h fwd c = handleAsync h fwd c ''/v1/traces''"

text \<open>What the upstream collector does with the synchronous request.\<close>

datatype upstream = NewRequestFails | TransportFails | Response int header bytes

definition skipped_response_header :: "string \<Rightarrow> bool" where
  "skipped_response_header k =
     (let lowerKey = ToLower k in
        HasPrefix lowerKey ''access-control-'' \<or> lowerKey = ''vary'' \<or>
        lowerKey = ''content-length'' \<or> lowerKey = ''transfer-encoding'' \<or>
        lowerKey = ''connection'')"

fun copy_response_headers :: "header \<Rightarrow> header \<Rightarrow> header" where
  "copy_response_headers dst [] = dst"
| "copy_response_headers dst ((k, values) # rest) =
     (if skipped_response_header k then copy_response_headers dst rest
      else copy_response_headers (add_values dst k values) rest)"

text \<open>
  \<open>HandleLogs\<close>. \<open>respHeader\<close> is the header map of the client's response when the
  handler starts; \<open>roundTrip\<close> is the upstream's answer to the request built.
\<close>

definition HandleLogs ::
  "ProxyHandler \<Rightarrow> forwarder \<Rightarrow> Request \<Rightarrow> header \<Rightarrow> (upstream_request \<Rightarrow> upstream)
     \<Rightarrow> reply \<times> forwarder" where
  "HandleLogs h fwd c respHeader roundTrip =
     (if \<not> syncLogs h then handleAsync h fwd c ''/v1/logs''
      else
        (case reqBody c of
           Inl err \<Rightarrow> (NoContent 400, fwd)
         | Inr body \<Rightarrow>
             (let headers = forward_headers (apiKey h) (reqHeader c);
                  req = \<lparr>reqURL = targetURL h @ ''/v1/logs'', reqPayload = body,
                         reqHeaders = headers\<rparr>
              in case roundTrip req of
                   NewRequestFails \<Rightarrow> (NoContent 400, fwd)
                 | TransportFails \<Rightarrow> (NoContent 502, fwd)
                 | Response StatusCode rh rb \<Rightarrow>
                     (Proxied StatusCode (copy_response_headers respHeader rh) rb, fwd))))"

section \<open>Invariants and example data\<close>

text \<open>
  The invariant of the pool: the permits channel has room for one value per worker and
  per queue slot; the buffer never exceeds its capacity and senders only block on a
  full buffer; every task the pool holds has a permit, and while the queue is open
  every permit belongs to a task the pool holds; there are no workers before \<open>Start\<close>.
\<close>

definition pool_inv :: "Pool \<Rightarrow> bool" where
  "pool_inv p =
     (permitsCap p = workerCount p + jobQueueCap p \<and>
      length (jobQueue p) \<le> jobQueueCap p \<and>
      (jobQueueSenders p \<noteq> [] \<longrightarrow> length (jobQueue p) = jobQueueCap p) \<and>
      holding_permit p \<le> permits p \<and> permits p \<le> permitsCap p \<and>
      (\<not> jobQueueClosed p \<longrightarrow> permits p = holding_permit p) \<and>
      (\<not> startOnce p \<longrightarrow> workers p = []))"

text \<open>A call that returned an error (the rejection of \<open>Submit\<close>).\<close>

definition rejected :: "call \<Rightarrow> bool" where
  "rejected r = (case r of ReturnsErr err \<Rightarrow> True | _ \<Rightarrow> False)"

definition job0 :: Job where
  "job0 = \<lparr>Body = [104, 105], TargetURL = ''http://collector:4318/v1/logs'',
           Headers = [(''Content-Type'', [''application/json''])]\<rparr>"

text \<open>
  For a request handled on the async path: the body of the upstream request, and the
  values the upstream request carries under a name (\<open>None\<close> when the name is not on
  the request, or no task is submitted).
\<close>

definition upstream_body :: "ProxyHandler \<Rightarrow> Request \<Rightarrow> string \<Rightarrow> bytes option" where
  "upstream_body h c path =
     (case submitted_job h c path of
        None \<Rightarrow> None
      | Some job \<Rightarrow> Some (reqPayload (new_request job)))"

definition upstream_values ::
  "ProxyHandler \<Rightarrow> Request \<Rightarrow> string \<Rightarrow> string \<Rightarrow> string list option" where
  "upstream_values h c path k =
     (case submitted_job h c path of
        None \<Rightarrow> None
      | Some job \<Rightarrow> map_of (reqHeaders (new_request job)) k)"

text \<open>A header map as a sender's job carries it: distinct canonical names, each with values.\<close>

definition job_header :: "header \<Rightarrow> bool" where
  "job_header h =
     (distinct (map fst h) \<and>
      list_all (\<lambda>(k, vs). CanonicalMIMEHeaderKey k = k \<and> vs \<noteq> []) h)"

definition handler0 :: ProxyHandler where
  "handler0 = \<lparr>targetURL = ''http://collector:4318'', apiKey = ''k'', syncLogs = False\<rparr>"

definition handler_nokey :: ProxyHandler where
  "handler_nokey = \<lparr>targetURL = ''http://collector:4318'', apiKey = [], syncLogs = False\<rparr>"

definition handler_sync :: ProxyHandler where
  "handler_sync = \<lparr>targetURL = ''http://collector:4318'', apiKey = ''k'', syncLogs = True\<rparr>"

definition request0 :: Request where
  "request0 =
     \<lparr>reqBody = Inr [104, 101, 108, 108, 111],
      reqHeader = [(''Host'', [''proxy.example'']), (''Connection'', [''keep-alive'']),
                   (''X-Client-Id'', [''a'', ''b'']), (''Authorization'', [''Bearer t''])]\<rparr>"

definition request_empty_ct :: Request where
  "request_empty_ct =
     \<lparr>reqBody = Inr [104, 105],
      reqHeader = [(''Content-Type'', [[], ''text/plain''])]\<rparr>"

definition request_unreadable :: Request where
  "request_unreadable = \<lparr>reqBody = Inl ''unexpected EOF'', reqHeader = []\<rparr>"

text \<open>An upstream that answers every request with 418, three headers and a body.\<close>

definition teapot_header :: header where
  "teapot_header =
     [(''Access-Control-Allow-Origin'', [''*'']), (''Vary'', [''Origin'']),
      (''X-Trace'', [''1'', ''2''])]"

definition teapot :: "upstream_request \<Rightarrow> upstream" where
  "teapot req = Response 418 teapot_header [116, 101, 97]"

text \<open>A pool of one worker and one queue slot, started, holding two accepted jobs.\<close>

definition full_pool :: Pool where
  "full_pool = snd (SubmitJob job0 (snd (SubmitJob job0 (Pool_Start (NewPool 4 1 1)))))"

text \<open>An outcome counted in \<open>jobs_processed_total\<close>: a response with a status in [200, 300).\<close>

definition succeeded :: "outcome \<Rightarrow> bool" where
  "succeeded out = (case out of Responds StatusCode \<Rightarrow> 200 \<le> StatusCode \<and> StatusCode < 300 | _ \<Rightarrow> False)"


text \<open>The outcomes of the tasks that reach their end in a run, one per send step, in order.\<close>

fun pool_sends :: "pool_event list \<Rightarrow> outcome list" where
  "pool_sends [] = []"
| "pool_sends (PSend wid out # es) = out # pool_sends es"
| "pool_sends (e # es) = pool_sends es"

fun sem_sends :: "sem_event list \<Rightarrow> outcome list" where
  "sem_sends [] = []"
| "sem_sends (SSend g out # es) = out # sem_sends es"
| "sem_sends (e # es) = sem_sends es"

fun hyb_sends :: "hyb_event list \<Rightarrow> outcome list" where
  "hyb_sends [] = []"
| "hyb_sends (HSend k out # es) = out # hyb_sends es"
| "hyb_sends (e # es) = hyb_sends es"

text \<open>
  Facts about a forwarder that hold in every state reachable from its constructor: once
  \<open>Stop\<close> has begun, the stop flag is set (and the hybrid queue closed).
\<close>

definition sem_inv :: "SemaphoreForwarder \<Rightarrow> bool" where
  "sem_inv s = (s_stopPhase s \<noteq> NotStopped \<longrightarrow> stopped s)"

definition hyb_inv :: "HybridForwarder \<Rightarrow> bool" where
  "hyb_inv h =
     ((h_stopPhase h \<noteq> NotStopped \<longrightarrow> h_stopped h \<and> h_jobQueueClosed h) \<and>
      (\<not> h_startOnce h \<longrightarrow> h_workers h = []))"

text \<open>
  A run of a pool of one worker and one queue slot: a job is accepted and still queued
  when \<open>Stop\<close> is called and its timeout fires.
\<close>

definition timeout_run :: "pool_event list" where
  "timeout_run = [PStart, PSubmit job0, PStopClose, PStopTimeout]"

text \<open>A run in which \<open>Stop\<close> returns after the only worker has left its loop.\<close>

definition graceful_run :: "pool_event list" where
  "graceful_run = [PStart, PSubmit job0, PRecv 0, PSend 0 (Responds 200), PStopClose, PExit 0, PStopDone]"

text \<open>Example runs in which tasks end in each of the ways a sender distinguishes.\<close>

definition counted_pool_run :: "pool_event list" where
  "counted_pool_run =
     [PStart, PSubmit job0, PRecv 0, PSend 0 (Responds 200), PSubmit job0, PRecv 0,
      PSend 0 (Responds 500), PSubmit job0, PRecv 0, PSend 0 DoFails]"

definition counted_sem_run :: "sem_event list" where
  "counted_sem_run =
     [SStart, SSubmit [104, 105] ''http://collector:4318/v1/traces'' [],
      SSubmit [104, 105] ''http://collector:4318/v1/traces'' [],
      SAcquire 0, SAcquire 1, SSend 1 (Responds 204), SSend 0 CreateFails]"

definition counted_hyb_run :: "hyb_event list" where
  "counted_hyb_run =
     [HStart, HSubmit [104, 105] ''http://collector:4318/v1/traces'' [], HRecv 0, HSpawn 0,
      HSend 0 (Responds 301)]"

text \<open>
  A forwarder at rest after a \<open>Stop\<close> whose wait completed: it was started, its stop
  flag is set, every worker, goroutine and sender has finished, and no \<open>Submit\<close> of the
  semaphore forwarder is under way between its two steps.
\<close>

definition pool_halted :: "Pool \<Rightarrow> bool" where
  "pool_halted p = (startOnce p \<and> list_all (\<lambda>w. w = Exited) (workers p))"

definition sem_halted :: "SemaphoreForwarder \<Rightarrow> bool" where
  "sem_halted s =
     (stopped s \<and> submitting s = [] \<and> list_all (\<lambda>g. g = Finished) (goroutines s))"

definition hyb_halted :: "HybridForwarder \<Rightarrow> bool" where
  "hyb_halted h =
     (h_startOnce h \<and> h_stopped h \<and> list_all (\<lambda>w. w = DExited) (h_workers h) \<and>
      list_all (\<lambda>x. x = SenderDone) (h_senders h))"

text \<open>The state a run leads to (the start state when some event of it is not enabled).\<close>

definition pool_after :: "pool_event list \<Rightarrow> Pool \<Rightarrow> Pool" where
  "pool_after es p = (case pool_run es p of None \<Rightarrow> p | Some p' \<Rightarrow> p')"

definition sem_after :: "sem_event list \<Rightarrow> SemaphoreForwarder \<Rightarrow> SemaphoreForwarder" where
  "sem_after es s = (case sem_run es s of None \<Rightarrow> s | Some s' \<Rightarrow> s')"

definition hyb_after :: "hyb_event list \<Rightarrow> HybridForwarder \<Rightarrow> HybridForwarder" where
  "hyb_after es h = (case hyb_run es h of None \<Rightarrow> h | Some h' \<Rightarrow> h')"

text \<open>
  Forwarders that have sent their only task and begun \<open>Stop\<close>, every worker and sender
  having finished: the wait of \<open>Stop\<close> can complete.
\<close>

definition drained_pool :: Pool where
  "drained_pool =
     pool_after [PStart, PSubmit job0, PRecv 0, PSend 0 (Responds 200), PStopClose, PExit 0]
       (NewPool 4 1 1)"

definition drained_sem_run :: "sem_event list" where
  "drained_sem_run =
     [SStart, SSubmit [104, 105] ''http://collector:4318/v1/traces'' [], SAcquire 0,
      SSend 0 (Responds 200), SStopStore]"

definition drained_hyb_run :: "hyb_event list" where
  "drained_hyb_run =
     [HStart, HSubmit [104, 105] ''http://collector:4318/v1/traces'' [], HRecv 0, HSpawn 0,
      HSend 0 (Responds 200), HStopClose, HExit 0]"

text \<open>
  More facts about reachable pools: a started pool has \<open>workerCount\<close> workers, no
  worker leaves its loop while the queue is open, no sender stays blocked on a closed
  queue, and the queue has room for at least one job.
\<close>

definition pool_alive :: "Pool \<Rightarrow> bool" where
  "pool_alive p =
     ((startOnce p \<longrightarrow> length (workers p) = workerCount p) \<and>
      (\<not> jobQueueClosed p \<longrightarrow> Exited \<notin> set (workers p)) \<and>
      (jobQueueClosed p \<longrightarrow> jobQueueSenders p = []) \<and>
      0 < jobQueueCap p)"

text \<open>The jobs a pool holds, and the jobs submitted in a run.\<close>

definition held_jobs :: "Pool \<Rightarrow> Job set" where
  "held_jobs p =
     set (jobQueue p) \<union> set (jobQueueSenders p) \<union> {job. Busy job \<in> set (workers p)}"

fun pool_submits :: "pool_event list \<Rightarrow> Job list" where
  "pool_submits [] = []"
| "pool_submits (PSubmit job # es) = job # pool_submits es"
| "pool_submits (e # es) = pool_submits es"

section \<open>Properties\<close>

subsection \<open>The pooled forwarder keeps its bound\<close>

lemma filter_update_length:
  "i < length ws \<Longrightarrow>
   length (filter P (ws[i := x])) + (if P (ws ! i) then 1 else 0) =
   length (filter P ws) + (if P x then 1 else 0)"
proof (induction ws arbitrary: i)
  case Nil
  then show ?case by simp
next
  case (Cons w ws)
  then show ?case by (cases i) auto
qed

lemma busy_simps [simp]: "\<not> busy Idle" "busy (Busy j)" "\<not> busy Exited"
  by (simp_all add: busy_def)

lemma NewPool_inv: "pool_inv (NewPool n w q)"
  by (simp add: pool_inv_def NewPool_def holding_permit_def Let_def nat_add_distrib)

lemma Pool_Start_inv: "pool_inv p \<Longrightarrow> pool_inv (Pool_Start p)"
  by (auto simp: pool_inv_def Pool_Start_def holding_permit_def)

lemma SubmitJob_inv: "pool_inv p \<Longrightarrow> pool_inv (snd (SubmitJob job p))"
  by (auto simp: pool_inv_def SubmitJob_def holding_permit_def Let_def)

lemma Pool_Stop_close_inv: "pool_inv p \<Longrightarrow> pool_inv (Pool_Stop_close p)"
  by (auto simp: pool_inv_def Pool_Stop_close_def holding_permit_def)

lemma Pool_worker_recv_inv:
  assumes "pool_inv p" "Pool_worker_recv i p = Some p'"
  shows "pool_inv p'"
proof -
  from assms(2) obtain job rest where i: "i < length (workers p)" "workers p ! i = Idle"
    and q: "jobQueue p = job # rest"
    and p': "p' = p\<lparr>jobQueue := rest @ take 1 (jobQueueSenders p),
                     jobQueueSenders := drop 1 (jobQueueSenders p),
                     workers := (workers p)[i := Busy job],
                     env := (env p)\<lparr>ActiveWorkersGauge := ActiveWorkersGauge (env p) + 1\<rparr>\<rparr>"
    by (auto simp: Pool_worker_recv_def split: if_splits list.splits)
  from filter_update_length [OF i(1), of busy "Busy job"] i(2)
  have b: "length (filter busy ((workers p)[i := Busy job])) = length (filter busy (workers p)) + 1"
    by simp
  show ?thesis
    using assms(1) q b
    by (cases "jobQueueSenders p") (auto simp: pool_inv_def p' holding_permit_def)
qed

lemma Pool_worker_send_inv:
  assumes "pool_inv p" "Pool_worker_send i out p = Some p'"
  shows "pool_inv p'"
proof -
  from assms(2) obtain job where i: "i < length (workers p)" "workers p ! i = Busy job"
    and p': "jobQueue p' = jobQueue p" "jobQueueSenders p' = jobQueueSenders p"
       "workers p' = (workers p)[i := Idle]" "permits p' = permits p - 1"
       "permitsCap p' = permitsCap p" "workerCount p' = workerCount p" "startOnce p' = startOnce p"
       "jobQueueCap p' = jobQueueCap p" "jobQueueClosed p' = jobQueueClosed p"
    by (auto simp: Pool_worker_send_def Let_def split: if_splits wstate.splits)
  from filter_update_length [OF i(1), of busy Idle] i(2)
  have b: "length (filter busy ((workers p)[i := Idle])) + 1 = length (filter busy (workers p))"
    by simp
  show ?thesis
    using assms(1) b by (auto simp: pool_inv_def p' holding_permit_def)
qed

lemma Pool_worker_exit_inv:
  assumes "pool_inv p" "Pool_worker_exit i p = Some p'"
  shows "pool_inv p'"
proof -
  from assms(2) have i: "i < length (workers p)" "workers p ! i = Idle"
    and p': "p' = p\<lparr>workers := (workers p)[i := Exited]\<rparr>"
    by (auto simp: Pool_worker_exit_def split: if_splits)
  from filter_update_length [OF i(1), of busy Exited] i(2)
  have b: "length (filter busy ((workers p)[i := Exited])) = length (filter busy (workers p))"
    by simp
  show ?thesis
    using assms(1) b by (auto simp: pool_inv_def p' holding_permit_def)
qed

lemma Pool_Stop_inv:
  "pool_inv p \<Longrightarrow> Pool_Stop_done p = Some p' \<or> Pool_Stop_timeout p = Some p' \<Longrightarrow> pool_inv p'"
  by (auto simp: Pool_Stop_done_def Pool_Stop_timeout_def pool_inv_def holding_permit_def
           split: if_splits)

lemma pool_step_inv:
  assumes "pool_inv p" "pool_step e p = Some p'"
  shows "pool_inv p'"
  using assms
  by (cases e)
     (auto simp: Pool_Start_inv SubmitJob_inv Pool_Stop_close_inv
           intro: Pool_worker_recv_inv Pool_worker_send_inv Pool_worker_exit_inv Pool_Stop_inv)

lemma pool_run_inv: "pool_inv p \<Longrightarrow> pool_run es p = Some p' \<Longrightarrow> pool_inv p'"
proof (induction es arbitrary: p)
  case Nil
  then show ?case by simp
next
  case (Cons e es)
  then show ?case by (auto split: option.splits dest: pool_step_inv)
qed


lemma pool_run_append:
  "pool_run (es @ es') p = (case pool_run es p of None \<Rightarrow> None | Some p' \<Rightarrow> pool_run es' p')"
  by (induction es arbitrary: p) (auto split: option.splits)

lemma pool_step_open:
  "pool_step e p = Some p' \<Longrightarrow> e \<noteq> PStopClose \<Longrightarrow> jobQueueClosed p' = jobQueueClosed p"
  by (cases e)
     (auto simp: Pool_Start_def Pool_Stop_done_def Pool_Stop_timeout_def SubmitJob_def
                 Pool_worker_recv_def Pool_worker_send_def Pool_worker_exit_def Let_def
           split: if_splits list.splits wstate.splits)

lemma pool_run_open:
  "pool_run es p = Some p' \<Longrightarrow> PStopClose \<notin> set es \<Longrightarrow> jobQueueClosed p' = jobQueueClosed p"
proof (induction es arbitrary: p)
  case Nil
  then show ?case by simp
next
  case (Cons e es)
  then show ?case by (auto split: option.splits dest: pool_step_open)
qed

lemma NewPool_sizes:
  "workerCount (NewPool n w q) = (if w \<le> 0 then 50 * n else nat w)"
  "jobQueueCap (NewPool n w q) = (if q \<le> 0 then 10000 else nat q)"
  "\<not> jobQueueClosed (NewPool n w q)"
  by (simp_all add: NewPool_def Let_def nat_mult_distrib)

lemma pool_step_sizes:
  "pool_step e p = Some p' \<Longrightarrow>
   workerCount p' = workerCount p \<and> jobQueueCap p' = jobQueueCap p"
  by (cases e)
     (auto simp: Pool_Start_def Pool_Stop_close_def Pool_Stop_done_def Pool_Stop_timeout_def
                 SubmitJob_def Pool_worker_recv_def Pool_worker_send_def Pool_worker_exit_def Let_def
           split: if_splits list.splits wstate.splits)

lemma pool_run_sizes:
  "pool_run es p = Some p' \<Longrightarrow>
   workerCount p' = workerCount p \<and> jobQueueCap p' = jobQueueCap p"
proof (induction es arbitrary: p)
  case Nil
  then show ?case by simp
next
  case (Cons e es)
  then show ?case by (auto split: option.splits dest: pool_step_sizes)
qed

lemma SubmitJob_rejected: "rejected (fst (SubmitJob job p)) \<longleftrightarrow> \<not> permits p < permitsCap p"
  by (simp add: SubmitJob_def rejected_def Let_def)

text \<open>
  C1, as amended. In every state the pooled forwarder can reach from \<open>NewPool\<close>,
  whatever the sequence of starts, submits, worker steps and stops, the tasks holding a
  permit (queued, in flight, or in a \<open>SubmitJob\<close> call that has acquired its permit
  and not yet put its job into the queue, blocked while the buffer is full) number at most \<open>W + Q\<close>, the effective worker count and
  queue capacity; the tasks queued or in flight are among them. As long as \<open>Stop\<close> has
  not been called, the permits taken equal that number (one permit per accepted submit,
  released on every path of the worker), and \<open>SubmitJob\<close> returns its error exactly
  when the number has reached \<open>W + Q\<close>.
\<close>

theorem pool_permit_bound:
  assumes run: "pool_run es (NewPool NumCPU workerCount0 jobQueueSize0) = Some p"
    and W: "W = (if workerCount0 \<le> 0 then 50 * NumCPU else nat workerCount0)"
    and Q: "Q = (if jobQueueSize0 \<le> 0 then 10000 else nat jobQueueSize0)"
  shows "queued_in_flight p \<le> holding_permit p \<and> holding_permit p \<le> W + Q \<and>
         (PStopClose \<notin> set es \<longrightarrow>
            permits p = holding_permit p \<and>
            (rejected (fst (SubmitJob job p)) \<longleftrightarrow> holding_permit p = W + Q))"
proof -
  from pool_run_inv [OF NewPool_inv run] have inv: "pool_inv p" .
  from pool_run_sizes [OF run] W Q have sz: "workerCount p = W" "jobQueueCap p = Q"
    by (simp_all add: NewPool_sizes)
  from inv sz have cap: "permitsCap p = W + Q" and le: "holding_permit p \<le> permits p"
    and pc: "permits p \<le> permitsCap p"
    by (simp_all add: pool_inv_def)
  have "permits p = holding_permit p" if "PStopClose \<notin> set es"
    using pool_run_open [OF run that] inv by (simp add: NewPool_sizes pool_inv_def)
  moreover have "queued_in_flight p \<le> holding_permit p"
    by (simp add: queued_in_flight_def holding_permit_def)
  ultimately show ?thesis
    using cap le pc by (auto simp: SubmitJob_rejected)
qed

theorem pool_permit_bound_witness:
  "PStopClose \<notin> set [PStart, PSubmit job0, PSubmit job0] \<and>
   (case pool_run [PStart, PSubmit job0, PSubmit job0] (NewPool 4 1 1) of
      None \<Rightarrow> False
    | Some p \<Rightarrow> holding_permit p = 2 \<and> permits p = 2 \<and> rejected (fst (SubmitJob job0 p)))"
proof -
  obtain p where r: "pool_run [PStart, PSubmit job0, PSubmit job0] (NewPool 4 1 1) = Some p"
    by (simp add: NewPool_def Pool_Start_def SubmitJob_def)
  have o: "holding_permit p = 2"
    using r by (auto simp: NewPool_def Pool_Start_def SubmitJob_def holding_permit_def world0_def)
  have c: "PStopClose \<notin> set [PStart, PSubmit job0, PSubmit job0]" by simp
  from pool_permit_bound [OF r refl refl, of job0] c o
  have "permits p = 2 \<and> rejected (fst (SubmitJob job0 p))" by simp
  with o c show ?thesis unfolding r by simp
qed

text \<open>
  Two submits to a started pool of one worker and one queue slot, before the worker has
  received: one job is in the buffer, the second call holds its permit and waits for
  room. One task is queued, none is in flight, \<open>W + Q = 2\<close>, and a third submit is
  rejected.
\<close>

theorem queued_in_flight_counterexample:
  "queued_in_flight full_pool = 1 \<and> workerCount full_pool + jobQueueCap full_pool = 2 \<and>
   \<not> jobQueueClosed full_pool \<and> rejected (fst (SubmitJob job0 full_pool))"
  by code_simp

subsection \<open>Headers and the ingress adapter\<close>

lemma map_of_Header_Add:
  "CanonicalMIMEHeaderKey k = k \<Longrightarrow>
   map_of (Header_Add h k v) k' =
     (if k' = k then Some (Header_Values h k @ [v]) else map_of h k')"
  by (simp add: Header_Add_def update_conv' Header_Values_def)

lemma map_of_add_values:
  "CanonicalMIMEHeaderKey k = k \<Longrightarrow> vals \<noteq> [] \<Longrightarrow>
   map_of (add_values h k vals) k' =
     (if k' = k then Some (Header_Values h k @ vals) else map_of h k')"
proof (induction vals arbitrary: h)
  case Nil
  then show ?case by simp
next
  case (Cons v vs)
  show ?case
  proof (cases "vs = []")
    case True
    with Cons.prems show ?thesis by (simp add: map_of_Header_Add)
  next
    case False
    with Cons show ?thesis by (simp add: map_of_Header_Add Header_Values_def)
  qed
qed

lemma map_of_copy_request_headers:
  "distinct (map fst src) \<Longrightarrow> \<forall>(k, vs) \<in> set src. CanonicalMIMEHeaderKey k = k \<Longrightarrow>
   map_of (copy_request_headers dst src) k =
     (case map_of src k of
        None \<Rightarrow> map_of dst k
      | Some vals \<Rightarrow>
          if forwarded k vals then Some (Header_Values dst k @ vals) else map_of dst k)"
proof (induction src arbitrary: dst)
  case Nil
  then show ?case by simp
next
  case (Cons e src)
  obtain k' vals' where e: "e = (k', vals')" by (cases e)
  from Cons.prems e have d: "distinct (map fst src)" and nk: "map_of src k' = None"
    and c: "\<forall>(k, vs) \<in> set src. CanonicalMIMEHeaderKey k = k" and ck: "CanonicalMIMEHeaderKey k' = k'"
    by (auto simp: map_of_eq_None_iff)
  note IH = Cons.IH [OF d c]
  show ?case
  proof (cases "forwarded k' vals'")
    case True
    then have "copy_request_headers dst (e # src) = copy_request_headers (add_values dst k' vals') src"
      by (simp add: e forwarded_def)
    moreover from True have "vals' \<noteq> []" by (simp add: forwarded_def)
    ultimately show ?thesis
      using nk ck True
      by (auto simp: e IH map_of_add_values Header_Values_def split: option.splits)
  next
    case False
    then have "copy_request_headers dst (e # src) = copy_request_headers dst src"
      by (auto simp: e forwarded_def)
    then show ?thesis
      using nk False by (auto simp: e IH split: option.splits)
  qed
qed

lemma wire_header_keys:
  "wire_header h \<Longrightarrow> distinct (map fst h) \<and> (\<forall>(k, vs) \<in> set h. CanonicalMIMEHeaderKey k = k)"
  by (auto simp: wire_header_def list_all_iff)

lemma canonical_literals:
  "CanonicalMIMEHeaderKey ''Content-Type'' = ''Content-Type''"
  "CanonicalMIMEHeaderKey ''Authorization'' = ''Authorization''"
  by code_simp+

lemma literal_forwarded:
  "forwarded ''Content-Type'' vals \<longleftrightarrow> vals \<noteq> []"
  "forwarded ''Authorization'' vals \<longleftrightarrow> vals \<noteq> []"
proof -
  have "\<not> EqualFold ''Content-Type'' ''Host''" "\<not> isHopByHop ''Content-Type''"
    "\<not> EqualFold ''Authorization'' ''Host''" "\<not> isHopByHop ''Authorization''"
    by code_simp+
  then show "forwarded ''Content-Type'' vals \<longleftrightarrow> vals \<noteq> []"
    "forwarded ''Authorization'' vals \<longleftrightarrow> vals \<noteq> []"
    by (simp_all add: forwarded_def)
qed

text \<open>The headers after the copying loop, for a request off the wire.\<close>

lemma map_of_copied:
  assumes "wire_header src"
  shows "map_of (copy_request_headers [] src) k =
     (case map_of src k of None \<Rightarrow> None
      | Some vals \<Rightarrow> if forwarded k vals then Some vals else None)"
  using wire_header_keys [OF assms]
  by (simp add: map_of_copy_request_headers Header_Values_def split: option.splits)

lemma Header_Get_copied:
  assumes "wire_header src"
  shows "Header_Get (copy_request_headers [] src) ''Content-Type'' = Header_Get src ''Content-Type''"
  by (auto simp: Header_Get_def canonical_literals map_of_copied [OF assms] literal_forwarded
           split: option.splits list.splits)

lemma map_of_forward_headers:
  assumes "wire_header src"
  shows "map_of (forward_headers key src) k =
     (if k = ''Authorization'' \<and> key \<noteq> [] then Some [key]
      else if k = ''Content-Type'' \<and> Header_Get src ''Content-Type'' = []
        then Some [''application/x-protobuf'']
      else case map_of src k of None \<Rightarrow> None
           | Some vals \<Rightarrow> if forwarded k vals then Some vals else None)"
  by (simp add: forward_headers_def Let_def Header_Get_copied [OF assms] Header_Set_def
        update_conv' canonical_literals map_of_copied [OF assms])


lemma distinct_add_values:
  "distinct (map fst h) \<Longrightarrow> distinct (map fst (add_values h k vals))"
  by (induction vals arbitrary: h) (simp_all add: Header_Add_def Let_def distinct_update)

lemma distinct_copy_request_headers:
  "distinct (map fst dst) \<Longrightarrow> distinct (map fst (copy_request_headers dst src))"
  by (induction dst src rule: copy_request_headers.induct) (simp_all add: distinct_add_values)

lemma distinct_forward_headers: "distinct (map fst (forward_headers key src))"
  by (simp add: forward_headers_def Let_def Header_Set_def distinct_update
        distinct_copy_request_headers)

lemma job_header_iff:
  "job_header h \<longleftrightarrow>
     distinct (map fst h) \<and>
     (\<forall>k vs. map_of h k = Some vs \<longrightarrow> CanonicalMIMEHeaderKey k = k \<and> vs \<noteq> [])"
  by (fastforce simp: job_header_def list_all_iff)

lemma job_header_forward_headers:
  assumes "wire_header src"
  shows "job_header (forward_headers key src)"
  unfolding job_header_iff
proof (intro conjI allI impI)
  show "distinct (map fst (forward_headers key src))" by (rule distinct_forward_headers)
next
  fix k vs
  assume "map_of (forward_headers key src) k = Some vs"
  then have "k = ''Authorization'' \<or> k = ''Content-Type'' \<or> (map_of src k = Some vs \<and> forwarded k vs)"
    and "vs \<noteq> []"
    by (auto simp: map_of_forward_headers [OF assms] forwarded_def
             split: if_splits option.splits)
  moreover have "CanonicalMIMEHeaderKey k = k" if "map_of src k = Some vs"
    using wire_header_keys [OF assms] map_of_SomeD [OF that] by auto
  ultimately show "CanonicalMIMEHeaderKey k = k" and "vs \<noteq> []"
    by (auto simp: canonical_literals)
qed

lemma map_of_copy_job_headers:
  "distinct (map fst src) \<Longrightarrow>
   \<forall>(k, vs) \<in> set src. CanonicalMIMEHeaderKey k = k \<and> vs \<noteq> [] \<Longrightarrow>
   map_of (copy_job_headers dst src) k =
     (case map_of src k of
        None \<Rightarrow> map_of dst k
      | Some vals \<Rightarrow> Some (Header_Values dst k @ vals))"
proof (induction src arbitrary: dst)
  case Nil
  then show ?case by simp
next
  case (Cons e src)
  obtain k' vals' where e: "e = (k', vals')" by (cases e)
  from Cons.prems e have d: "distinct (map fst src)" and nk: "map_of src k' = None"
    and c: "\<forall>(k, vs) \<in> set src. CanonicalMIMEHeaderKey k = k \<and> vs \<noteq> []"
    and ck: "CanonicalMIMEHeaderKey k' = k'" "vals' \<noteq> []"
    by (auto simp: map_of_eq_None_iff)
  note IH = Cons.IH [OF d c]
  show ?case
    using nk ck
    by (auto simp: e IH map_of_add_values Header_Values_def split: option.splits)
qed

lemma copy_job_headers_same:
  assumes "job_header hs"
  shows "map_of (copy_job_headers [] hs) k = map_of hs k"
proof -
  from assms have "distinct (map fst hs)"
    and "\<forall>(k, vs) \<in> set hs. CanonicalMIMEHeaderKey k = k \<and> vs \<noteq> []"
    by (auto simp: job_header_def list_all_iff)
  then show ?thesis
    by (simp add: map_of_copy_job_headers Header_Values_def split: option.splits)
qed

lemma upstream_values_eq:
  assumes "wire_header (reqHeader c)" "reqBody c = Inr body"
  shows "upstream_values h c path k = map_of (forward_headers (apiKey h) (reqHeader c)) k"
  using assms(2) copy_job_headers_same [OF job_header_forward_headers [OF assms(1)]]
  by (simp add: upstream_values_def submitted_job_def new_request_def)

text \<open>
  C2, as amended. For a POST on the async path whose body could be read and whose
  header map is as net/http stores it, the body of the upstream request is the body
  read, and every client header that has values and is neither Host nor hop-by-hop is on
  the upstream request under its name with the same values, with two exceptions:
  Authorization when a credential is configured, and Content-Type when the client sent
  none or sent an empty first value. A configured credential is the only Authorization
  value; in the Content-Type exception the only value is application/x-protobuf.
\<close>

theorem async_body_and_headers:
  assumes "wire_header (reqHeader c)" and "reqBody c = Inr body"
  shows "upstream_body h c path = Some body \<and>
     (\<forall>k vals. map_of (reqHeader c) k = Some vals \<and> vals \<noteq> [] \<and>
         \<not> EqualFold k ''Host'' \<and> \<not> isHopByHop k \<and>
         \<not> (k = ''Authorization'' \<and> apiKey h \<noteq> []) \<and>
         \<not> (k = ''Content-Type'' \<and> Header_Get (reqHeader c) ''Content-Type'' = [])
         \<longrightarrow> upstream_values h c path k = Some vals) \<and>
     (apiKey h \<noteq> [] \<longrightarrow> upstream_values h c path ''Authorization'' = Some [apiKey h]) \<and>
     (Header_Get (reqHeader c) ''Content-Type'' = []
        \<longrightarrow> upstream_values h c path ''Content-Type'' = Some [''application/x-protobuf''])"
proof -
  have "upstream_body h c path = Some body"
    using assms(2) by (simp add: upstream_body_def submitted_job_def new_request_def)
  moreover have "upstream_values h c path k = Some vals"
    if "map_of (reqHeader c) k = Some vals" "vals \<noteq> []" "\<not> EqualFold k ''Host''"
      "\<not> isHopByHop k" "\<not> (k = ''Authorization'' \<and> apiKey h \<noteq> [])"
      "\<not> (k = ''Content-Type'' \<and> Header_Get (reqHeader c) ''Content-Type'' = [])"
    for k vals
    using that
    by (auto simp: upstream_values_eq [OF assms] map_of_forward_headers [OF assms(1)] forwarded_def)
  moreover have "upstream_values h c path ''Authorization'' = Some [apiKey h]" if "apiKey h \<noteq> []"
    using that by (simp add: upstream_values_eq [OF assms] map_of_forward_headers [OF assms(1)])
  moreover have "upstream_values h c path ''Content-Type'' = Some [''application/x-protobuf'']"
    if "Header_Get (reqHeader c) ''Content-Type'' = []"
    using that by (simp add: upstream_values_eq [OF assms] map_of_forward_headers [OF assms(1)])
  ultimately show ?thesis by blast
qed


theorem async_body_and_headers_witness:
  "wire_header (reqHeader request0) \<and> reqBody request0 = Inr [104, 101, 108, 108, 111] \<and>
   upstream_body handler0 request0 ''/v1/logs'' = Some [104, 101, 108, 108, 111] \<and>
   upstream_values handler0 request0 ''/v1/logs'' ''X-Client-Id'' = Some [''a'', ''b''] \<and>
   upstream_values handler0 request0 ''/v1/logs'' ''Authorization'' = Some [''k''] \<and>
   upstream_values handler0 request0 ''/v1/logs'' ''Content-Type'' = Some [''application/x-protobuf'']"
proof -
  have w: "wire_header (reqHeader request0)" by code_simp
  have b: "reqBody request0 = Inr [104, 101, 108, 108, 111]" by (simp add: request0_def)
  have k: "apiKey handler0 = ''k''" by (simp add: handler0_def)
  have x: "map_of (reqHeader request0) ''X-Client-Id'' = Some [''a'', ''b'']"
    "\<not> EqualFold ''X-Client-Id'' ''Host''" "\<not> isHopByHop ''X-Client-Id''"
    "Header_Get (reqHeader request0) ''Content-Type'' = []"
    by code_simp+
  note t = async_body_and_headers [OF w b, of handler0 "''/v1/logs''"]
  from t have "upstream_body handler0 request0 ''/v1/logs'' = Some [104, 101, 108, 108, 111]"
    by simp
  moreover from t x have "upstream_values handler0 request0 ''/v1/logs'' ''X-Client-Id'' = Some [''a'', ''b'']"
    by simp
  moreover from t k have "upstream_values handler0 request0 ''/v1/logs'' ''Authorization'' = Some [''k'']"
    by simp
  moreover from t x have "upstream_values handler0 request0 ''/v1/logs'' ''Content-Type'' = Some [''application/x-protobuf'']"
    by simp
  ultimately show ?thesis using w b by simp
qed

theorem async_content_type_counterexample:
  "wire_header (reqHeader request_empty_ct) \<and>
   map_of (reqHeader request_empty_ct) ''Content-Type'' = Some [[], ''text/plain''] \<and>
   upstream_values handler0 request_empty_ct ''/v1/logs'' ''Content-Type''
     = Some [''application/x-protobuf'']"
  by code_simp

text \<open>
  C9, as amended. With an empty credential the adapter injects nothing: the upstream
  request carries under Authorization exactly the values the client sent, and no
  Authorization header when the client sent none.
\<close>

theorem empty_credential_authorization:
  assumes "wire_header (reqHeader c)" and "reqBody c = Inr body" and "apiKey h = []"
  shows "upstream_values h c path ''Authorization'' =
           (case map_of (reqHeader c) ''Authorization'' of
              None \<Rightarrow> None
            | Some vals \<Rightarrow> if vals = [] then None else Some vals)"
  using assms(3)
  by (simp add: upstream_values_eq [OF assms(1,2)] map_of_forward_headers [OF assms(1)]
        literal_forwarded split: option.splits)

theorem empty_credential_authorization_witness:
  "wire_header (reqHeader request0) \<and> reqBody request0 = Inr [104, 101, 108, 108, 111] \<and>
   apiKey handler_nokey = [] \<and>
   upstream_values handler_nokey request0 ''/v1/traces'' ''Authorization'' = Some [''Bearer t'']"
proof -
  have w: "wire_header (reqHeader request0)" by code_simp
  have b: "reqBody request0 = Inr [104, 101, 108, 108, 111]" by (simp add: request0_def)
  have k: "apiKey handler_nokey = []" by (simp add: handler_nokey_def)
  have a: "map_of (reqHeader request0) ''Authorization'' = Some [''Bearer t'']"
    by (simp add: request0_def)
  from empty_credential_authorization [OF w b k, of "''/v1/traces''"] a w b k
  show ?thesis by simp
qed

theorem empty_credential_counterexample:
  "apiKey handler_nokey = [] \<and>
   upstream_values handler_nokey request0 ''/v1/traces'' ''Authorization'' = Some [''Bearer t'']"
  by code_simp

lemma map_of_copy_response_headers:
  "distinct (map fst src) \<Longrightarrow> \<forall>(k, vs) \<in> set src. CanonicalMIMEHeaderKey k = k \<Longrightarrow>
   map_of (copy_response_headers dst src) k =
     (case map_of src k of
        None \<Rightarrow> map_of dst k
      | Some values \<Rightarrow>
          if skipped_response_header k \<or> values = [] then map_of dst k
          else Some (Header_Values dst k @ values))"
proof (induction src arbitrary: dst)
  case Nil
  then show ?case by simp
next
  case (Cons e src)
  obtain k' vals' where e: "e = (k', vals')" by (cases e)
  from Cons.prems e have d: "distinct (map fst src)" and nk: "map_of src k' = None"
    and c: "\<forall>(k, vs) \<in> set src. CanonicalMIMEHeaderKey k = k" and ck: "CanonicalMIMEHeaderKey k' = k'"
    by (auto simp: map_of_eq_None_iff)
  note IH = Cons.IH [OF d c]
  show ?case
  proof (cases "skipped_response_header k' \<or> vals' = []")
    case True
    then have "copy_response_headers dst (e # src) = copy_response_headers dst src"
      by (auto simp: e)
    then show ?thesis
      using nk True by (auto simp: e IH split: option.splits)
  next
    case False
    then have "copy_response_headers dst (e # src) = copy_response_headers (add_values dst k' vals') src"
      by (simp add: e)
    then show ?thesis
      using nk ck False
      by (auto simp: e IH map_of_add_values Header_Values_def split: option.splits)
  qed
qed

text \<open>
  C10. On the sync-debug logs path an upstream response is passed on with its status and
  body. Of its headers, those whose lower-cased name starts with access-control-, and
  Vary, Content-Length, Transfer-Encoding and Connection, leave the client's response
  headers as they were; every other one is added with all its values.
\<close>

theorem sync_logs_response:
  assumes "syncLogs h" and "reqBody c = Inr body"
    and "roundTrip \<lparr>reqURL = targetURL h @ ''/v1/logs'', reqPayload = body,
                    reqHeaders = forward_headers (apiKey h) (reqHeader c)\<rparr>
           = Response StatusCode rh rb"
    and "wire_header rh"
  shows "fst (HandleLogs h fwd c respHeader roundTrip)
           = Proxied StatusCode (copy_response_headers respHeader rh) rb \<and>
         (\<forall>k. map_of (copy_response_headers respHeader rh) k =
            (case map_of rh k of
               None \<Rightarrow> map_of respHeader k
             | Some values \<Rightarrow>
                 if HasPrefix (ToLower k) ''access-control-'' \<or>
                    ToLower k \<in> {''vary'', ''content-length'', ''transfer-encoding'', ''connection''}
                 then map_of respHeader k
                 else if values = [] then map_of respHeader k
                 else Some (Header_Values respHeader k @ values)))"
proof -
  have "fst (HandleLogs h fwd c respHeader roundTrip)
          = Proxied StatusCode (copy_response_headers respHeader rh) rb"
    using assms(1,2,3) by (simp add: HandleLogs_def Let_def)
  moreover have "skipped_response_header k \<longleftrightarrow>
      HasPrefix (ToLower k) ''access-control-'' \<or>
      ToLower k \<in> {''vary'', ''content-length'', ''transfer-encoding'', ''connection''}" for k
    by (auto simp: skipped_response_header_def Let_def)
  ultimately show ?thesis
    using wire_header_keys [OF assms(4)]
    by (simp add: map_of_copy_response_headers split: option.splits)
qed

theorem sync_logs_response_witness:
  "syncLogs handler_sync \<and> wire_header teapot_header \<and>
   fst (HandleLogs handler_sync (PoolForwarder None) request0 [(''Vary'', [''Accept''])] teapot)
     = Proxied 418 [(''Vary'', [''Accept'']), (''X-Trace'', [''1'', ''2''])] [116, 101, 97] \<and>
   map_of (copy_response_headers [(''Vary'', [''Accept''])] teapot_header) ''Vary'' = Some [''Accept''] \<and>
   map_of (copy_response_headers [(''Vary'', [''Accept''])] teapot_header) ''X-Trace'' = Some [''1'', ''2'']"
proof -
  have s: "syncLogs handler_sync" by (simp add: handler_sync_def)
  have b: "reqBody request0 = Inr [104, 101, 108, 108, 111]" by (simp add: request0_def)
  have r: "teapot \<lparr>reqURL = targetURL handler_sync @ ''/v1/logs'', reqPayload = [104, 101, 108, 108, 111],
                    reqHeaders = forward_headers (apiKey handler_sync) (reqHeader request0)\<rparr>
           = Response 418 teapot_header [116, 101, 97]"
    by (simp add: teapot_def)
  have w: "wire_header teapot_header" by code_simp
  have c: "copy_response_headers [(''Vary'', [''Accept''])] teapot_header
             = [(''Vary'', [''Accept'']), (''X-Trace'', [''1'', ''2''])]"
    by code_simp
  from sync_logs_response
         [where h = handler_sync and c = request0 and roundTrip = teapot
            and fwd = "PoolForwarder None" and respHeader = "[(''Vary'', [''Accept''])]",
          OF s b r w]
  show ?thesis using s w by (simp add: c)
qed


lemma handleAsync_submits:
  "handleAsync h fwd c path =
     (case submitted_job h c path of
        None \<Rightarrow> (NoContent 400, fwd)
      | Some job \<Rightarrow>
          (case Forwarder_Submit (Body job) (TargetURL job) (Headers job) fwd of
             (r, fwd') \<Rightarrow> (reply_of_submit r, fwd')))"
  by (simp add: handleAsync_def submitted_job_def Let_def split: sum.splits prod.splits)

lemma pool_delivers_job:
  "pool_run [PSubmit job, PRecv 0, PSend 0 (Responds s)] (Pool_Start (NewPool (Suc n) 1 1)) = Some p
   \<Longrightarrow> posts (env p) = [new_request job]"
  by (auto simp: NewPool_def Pool_Start_def SubmitJob_def Pool_worker_recv_def
        Pool_worker_send_def send_job_def world0_def Let_def split: if_splits)

text \<open>
  C3. On the async path the reply is 400 when the body cannot be read, 202 when the
  forwarder's \<open>Submit\<close> returns nil and 503 when it returns an error; two requests
  whose submits end alike get the same reply, whatever the forwarders, their metrics and
  the upstream responses they have seen.
\<close>

theorem async_reply:
  "(reqBody c = Inl err \<longrightarrow> fst (handleAsync h fwd c path) = NoContent 400) \<and>
   (reqBody c = Inr body \<and>
      fst (Forwarder_Submit body (targetURL h @ path) (forward_headers (apiKey h) (reqHeader c)) fwd)
        = ReturnsNil
    \<longrightarrow> fst (handleAsync h fwd c path) = NoContent 202) \<and>
   (reqBody c = Inr body \<and>
      fst (Forwarder_Submit body (targetURL h @ path) (forward_headers (apiKey h) (reqHeader c)) fwd)
        = ReturnsErr e
    \<longrightarrow> fst (handleAsync h fwd c path) = NoContent 503) \<and>
   (reqBody c = Inr body \<and> reqBody c' = Inr body' \<and>
      fst (Forwarder_Submit body (targetURL h @ path) (forward_headers (apiKey h) (reqHeader c)) fwd)
        = fst (Forwarder_Submit body' (targetURL h' @ path') (forward_headers (apiKey h') (reqHeader c')) fwd')
    \<longrightarrow> fst (handleAsync h fwd c path) = fst (handleAsync h' fwd' c' path'))"
  by (simp add: handleAsync_def Let_def reply_of_submit_def split: prod.splits)

theorem async_reply_witness:
  "reqBody request_unreadable = Inl ''unexpected EOF'' \<and>
   fst (handleAsync handler0 (PoolForwarder (Some full_pool)) request_unreadable ''/v1/logs'')
     = NoContent 400 \<and>
   reqBody request0 = Inr [104, 101, 108, 108, 111] \<and>
   fst (Forwarder_Submit [104, 101, 108, 108, 111] (targetURL handler0 @ ''/v1/logs'')
          (forward_headers (apiKey handler0) (reqHeader request0))
          (PoolForwarder (Some (Pool_Start (NewPool 4 1 1))))) = ReturnsNil \<and>
   fst (handleAsync handler0 (PoolForwarder (Some (Pool_Start (NewPool 4 1 1)))) request0 ''/v1/logs'')
     = NoContent 202 \<and>
   fst (Forwarder_Submit [104, 101, 108, 108, 111] (targetURL handler0 @ ''/v1/logs'')
          (forward_headers (apiKey handler0) (reqHeader request0))
          (PoolForwarder (Some full_pool))) = ReturnsErr ''worker pool queue full'' \<and>
   fst (handleAsync handler0 (PoolForwarder (Some full_pool)) request0 ''/v1/logs'')
     = NoContent 503 \<and>
   fst (handleAsync handler0 (SemaphoreFwd (NewSemaphoreForwarder 2)) request0 ''/v1/traces'')
     = fst (handleAsync handler0 (PoolForwarder (Some (Pool_Start (NewPool 4 1 1)))) request0 ''/v1/logs'')"
proof -
  have u: "reqBody request_unreadable = Inl ''unexpected EOF''"
    by (simp add: request_unreadable_def)
  have b: "reqBody request0 = Inr [104, 101, 108, 108, 111]" by (simp add: request0_def)
  have ok: "fst (Forwarder_Submit [104, 101, 108, 108, 111] (targetURL handler0 @ ''/v1/logs'')
          (forward_headers (apiKey handler0) (reqHeader request0))
          (PoolForwarder (Some (Pool_Start (NewPool 4 1 1))))) = ReturnsNil"
    by (simp add: Forwarder_Submit_def PoolForwarder_Submit_def SubmitJob_def Pool_Start_def
          NewPool_def split: prod.splits)
  have full: "fst (Forwarder_Submit [104, 101, 108, 108, 111] (targetURL handler0 @ ''/v1/logs'')
          (forward_headers (apiKey handler0) (reqHeader request0))
          (PoolForwarder (Some full_pool))) = ReturnsErr ''worker pool queue full''"
    by (simp add: Forwarder_Submit_def PoolForwarder_Submit_def SubmitJob_def Pool_Start_def
          NewPool_def full_pool_def split: prod.splits)
  from async_reply [of request_unreadable "''unexpected EOF''" handler0
      "PoolForwarder (Some full_pool)" "''/v1/logs''"] u
  have r400: "fst (handleAsync handler0 (PoolForwarder (Some full_pool)) request_unreadable ''/v1/logs'')
     = NoContent 400" by simp
  from async_reply [of request0 _ handler0
      "PoolForwarder (Some (Pool_Start (NewPool 4 1 1)))" "''/v1/logs''" "[104, 101, 108, 108, 111]"] b ok
  have r202: "fst (handleAsync handler0 (PoolForwarder (Some (Pool_Start (NewPool 4 1 1)))) request0 ''/v1/logs'')
     = NoContent 202" by simp
  from async_reply [of request0 _ handler0
      "PoolForwarder (Some full_pool)" "''/v1/logs''" "[104, 101, 108, 108, 111]"
      "''worker pool queue full''"] b full
  have r503: "fst (handleAsync handler0 (PoolForwarder (Some full_pool)) request0 ''/v1/logs'')
     = NoContent 503" by simp
  have sem: "fst (Forwarder_Submit [104, 101, 108, 108, 111] (targetURL handler0 @ ''/v1/traces'')
          (forward_headers (apiKey handler0) (reqHeader request0))
          (SemaphoreFwd (NewSemaphoreForwarder 2))) = ReturnsNil"
    by (simp add: Forwarder_Submit_def Semaphore_Submit_def NewSemaphoreForwarder_def
          split: prod.splits)
  from async_reply [of request0 _ handler0 "SemaphoreFwd (NewSemaphoreForwarder 2)"
      "''/v1/traces''" "[104, 101, 108, 108, 111]" _ request0 "[104, 101, 108, 108, 111]"
      handler0 "''/v1/logs''" "PoolForwarder (Some (Pool_Start (NewPool 4 1 1)))"] b ok sem r202
  have same: "fst (handleAsync handler0 (SemaphoreFwd (NewSemaphoreForwarder 2)) request0 ''/v1/traces'')
     = fst (handleAsync handler0 (PoolForwarder (Some (Pool_Start (NewPool 4 1 1)))) request0 ''/v1/logs'')"
    by simp
  show ?thesis using u b ok full r400 r202 r503 same by simp
qed

subsection \<open>Counters and response bodies\<close>

lemma send_job_counters:
  "JobsProcessedCounter (send_job out job w) = JobsProcessedCounter w + (if succeeded out then 1 else 0)"
  "JobsFailedCounter (send_job out job w) = JobsFailedCounter w + (if succeeded out then 0 else 1)"
  by (cases out; auto simp: send_job_def succeeded_def Let_def)+

lemma pool_step_counters:
  assumes "pool_step e p = Some p'"
  shows "JobsProcessedCounter (env p') =
           JobsProcessedCounter (env p) + length (filter succeeded (pool_sends [e])) \<and>
         JobsFailedCounter (env p') =
           JobsFailedCounter (env p) + length (filter (\<lambda>out. \<not> succeeded out) (pool_sends [e]))"
  using assms
  by (cases e)
     (auto simp: Pool_Start_def Pool_Stop_close_def Pool_Stop_done_def Pool_Stop_timeout_def
                 SubmitJob_def Pool_worker_recv_def Pool_worker_send_def Pool_worker_exit_def
                 Let_def send_job_counters
           split: if_splits list.splits wstate.splits)

lemma pool_sends_Cons: "pool_sends (e # es) = pool_sends [e] @ pool_sends es"
  by (cases e) simp_all

lemma pool_run_counters:
  "pool_run es p = Some p' \<Longrightarrow>
   JobsProcessedCounter (env p') =
     JobsProcessedCounter (env p) + length (filter succeeded (pool_sends es)) \<and>
   JobsFailedCounter (env p') =
     JobsFailedCounter (env p) + length (filter (\<lambda>out. \<not> succeeded out) (pool_sends es))"
proof (induction es arbitrary: p)
  case Nil
  then show ?case by simp
next
  case (Cons e es)
  from Cons.prems obtain q where s: "pool_step e p = Some q" and r: "pool_run es q = Some p'"
    by (auto split: option.splits)
  from pool_step_counters [OF s] Cons.IH [OF r] show ?case
    by (subst (1 2) pool_sends_Cons) simp
qed

lemma sem_step_counters:
  assumes "sem_step e s = Some s'"
  shows "JobsProcessedCounter (s_env s') =
           JobsProcessedCounter (s_env s) + length (filter succeeded (sem_sends [e])) \<and>
         JobsFailedCounter (s_env s') =
           JobsFailedCounter (s_env s) + length (filter (\<lambda>out. \<not> succeeded out) (sem_sends [e]))"
  using assms
  by (cases e)
     (auto simp: Semaphore_Start_def Semaphore_Stop_store_def Semaphore_Stop_done_def
                 Semaphore_Stop_timeout_def Semaphore_Submit_def Semaphore_Submit_load_def
                 Semaphore_Submit_go_def Semaphore_acquire_def
                 Semaphore_send_def Let_def send_job_counters
           split: if_splits gstate.splits)

lemma sem_sends_Cons: "sem_sends (e # es) = sem_sends [e] @ sem_sends es"
  by (cases e) simp_all

lemma sem_run_counters:
  "sem_run es s = Some s' \<Longrightarrow>
   JobsProcessedCounter (s_env s') =
     JobsProcessedCounter (s_env s) + length (filter succeeded (sem_sends es)) \<and>
   JobsFailedCounter (s_env s') =
     JobsFailedCounter (s_env s) + length (filter (\<lambda>out. \<not> succeeded out) (sem_sends es))"
proof (induction es arbitrary: s)
  case Nil
  then show ?case by simp
next
  case (Cons e es)
  from Cons.prems obtain q where s: "sem_step e s = Some q" and r: "sem_run es q = Some s'"
    by (auto split: option.splits)
  from sem_step_counters [OF s] Cons.IH [OF r] show ?case
    by (subst (1 2) sem_sends_Cons) simp
qed

lemma hyb_step_counters:
  assumes "hyb_step e h = Some h'"
  shows "JobsProcessedCounter (h_env h') =
           JobsProcessedCounter (h_env h) + length (filter succeeded (hyb_sends [e])) \<and>
         JobsFailedCounter (h_env h') =
           JobsFailedCounter (h_env h) + length (filter (\<lambda>out. \<not> succeeded out) (hyb_sends [e]))"
  using assms
  by (cases e)
     (auto simp: Hybrid_Start_def Hybrid_Stop_close_def Hybrid_Stop_done_def
                 Hybrid_Stop_timeout_def Hybrid_Submit_def Hybrid_worker_recv_def
                 Hybrid_worker_spawn_def Hybrid_send_def Hybrid_worker_exit_def
                 Let_def send_job_counters
           split: if_splits list.splits dstate.splits sender.splits)

lemma hyb_sends_Cons: "hyb_sends (e # es) = hyb_sends [e] @ hyb_sends es"
  by (cases e) simp_all

lemma hyb_run_counters:
  "hyb_run es h = Some h' \<Longrightarrow>
   JobsProcessedCounter (h_env h') =
     JobsProcessedCounter (h_env h) + length (filter succeeded (hyb_sends es)) \<and>
   JobsFailedCounter (h_env h') =
     JobsFailedCounter (h_env h) + length (filter (\<lambda>out. \<not> succeeded out) (hyb_sends es))"
proof (induction es arbitrary: h)
  case Nil
  then show ?case by simp
next
  case (Cons e es)
  from Cons.prems obtain q where s: "hyb_step e h = Some q" and r: "hyb_run es q = Some h'"
    by (auto split: option.splits)
  from hyb_step_counters [OF s] Cons.IH [OF r] show ?case
    by (subst (1 2) hyb_sends_Cons) simp
qed

lemma constructors_world0:
  "env (NewPool n w q) = world0" "s_env (NewSemaphoreForwarder m) = world0"
  "h_env (NewHybridForwarder w q m) = world0"
  by (simp_all add: NewPool_def NewSemaphoreForwarder_def NewHybridForwarder_def Let_def)

lemma world0_counters: "JobsProcessedCounter world0 = 0" "JobsFailedCounter world0 = 0"
  by (simp_all add: world0_def)

text \<open>
  C5. In every run of a forwarder from its constructor, each task that reaches its end
  (each send step) adds one to exactly one counter: \<open>jobs_processed_total\<close> when a
  response with a status in [200, 300) arrived, \<open>jobs_failed_total\<close> on any other
  status, a transport error or a request-creation error. So the two counters add up to
  the number of tasks that have reached their end.
\<close>

theorem job_counters:
  "(pool_run pes (NewPool NumCPU w q) = Some p \<longrightarrow>
      JobsProcessedCounter (env p) = length (filter succeeded (pool_sends pes)) \<and>
      JobsFailedCounter (env p) = length (filter (\<lambda>out. \<not> succeeded out) (pool_sends pes)) \<and>
      JobsProcessedCounter (env p) + JobsFailedCounter (env p) = length (pool_sends pes)) \<and>
   (sem_run ses (NewSemaphoreForwarder m) = Some s \<longrightarrow>
      JobsProcessedCounter (s_env s) = length (filter succeeded (sem_sends ses)) \<and>
      JobsFailedCounter (s_env s) = length (filter (\<lambda>out. \<not> succeeded out) (sem_sends ses)) \<and>
      JobsProcessedCounter (s_env s) + JobsFailedCounter (s_env s) = length (sem_sends ses)) \<and>
   (hyb_run hes (NewHybridForwarder w' q' m') = Some h \<longrightarrow>
      JobsProcessedCounter (h_env h) = length (filter succeeded (hyb_sends hes)) \<and>
      JobsFailedCounter (h_env h) = length (filter (\<lambda>out. \<not> succeeded out) (hyb_sends hes)) \<and>
      JobsProcessedCounter (h_env h) + JobsFailedCounter (h_env h) = length (hyb_sends hes))"
proof (intro conjI impI)
  assume r: "pool_run pes (NewPool NumCPU w q) = Some p"
  from pool_run_counters [OF r]
  show a: "JobsProcessedCounter (env p) = length (filter succeeded (pool_sends pes))"
    and b: "JobsFailedCounter (env p) = length (filter (\<lambda>out. \<not> succeeded out) (pool_sends pes))"
    by (simp_all add: constructors_world0 world0_counters)
  show "JobsProcessedCounter (env p) + JobsFailedCounter (env p) = length (pool_sends pes)"
    unfolding a b by (rule sum_length_filter_compl)
next
  assume r: "sem_run ses (NewSemaphoreForwarder m) = Some s"
  from sem_run_counters [OF r]
  show a: "JobsProcessedCounter (s_env s) = length (filter succeeded (sem_sends ses))"
    and b: "JobsFailedCounter (s_env s) = length (filter (\<lambda>out. \<not> succeeded out) (sem_sends ses))"
    by (simp_all add: constructors_world0 world0_counters)
  show "JobsProcessedCounter (s_env s) + JobsFailedCounter (s_env s) = length (sem_sends ses)"
    unfolding a b by (rule sum_length_filter_compl)
next
  assume r: "hyb_run hes (NewHybridForwarder w' q' m') = Some h"
  from hyb_run_counters [OF r]
  show a: "JobsProcessedCounter (h_env h) = length (filter succeeded (hyb_sends hes))"
    and b: "JobsFailedCounter (h_env h) = length (filter (\<lambda>out. \<not> succeeded out) (hyb_sends hes))"
    by (simp_all add: constructors_world0 world0_counters)
  show "JobsProcessedCounter (h_env h) + JobsFailedCounter (h_env h) = length (hyb_sends hes)"
    unfolding a b by (rule sum_length_filter_compl)
qed


theorem job_counters_witness:
  "pool_run counted_pool_run (NewPool 4 1 1) \<noteq> None \<and>
   map_option (JobsProcessedCounter \<circ> env) (pool_run counted_pool_run (NewPool 4 1 1)) = Some 1 \<and>
   map_option (JobsFailedCounter \<circ> env) (pool_run counted_pool_run (NewPool 4 1 1)) = Some 2 \<and>
   sem_run counted_sem_run (NewSemaphoreForwarder 2) \<noteq> None \<and>
   map_option (JobsProcessedCounter \<circ> s_env) (sem_run counted_sem_run (NewSemaphoreForwarder 2)) = Some 1 \<and>
   map_option (JobsFailedCounter \<circ> s_env) (sem_run counted_sem_run (NewSemaphoreForwarder 2)) = Some 1 \<and>
   hyb_run counted_hyb_run (NewHybridForwarder 1 1 1) \<noteq> None \<and>
   map_option (JobsProcessedCounter \<circ> h_env) (hyb_run counted_hyb_run (NewHybridForwarder 1 1 1)) = Some 0 \<and>
   map_option (JobsFailedCounter \<circ> h_env) (hyb_run counted_hyb_run (NewHybridForwarder 1 1 1)) = Some 1"
proof -
  have "pool_run counted_pool_run (NewPool 4 1 1) \<noteq> None" by code_simp
  then obtain p where p: "pool_run counted_pool_run (NewPool 4 1 1) = Some p" by auto
  have "sem_run counted_sem_run (NewSemaphoreForwarder 2) \<noteq> None" by code_simp
  then obtain s where s: "sem_run counted_sem_run (NewSemaphoreForwarder 2) = Some s" by auto
  have "hyb_run counted_hyb_run (NewHybridForwarder 1 1 1) \<noteq> None" by code_simp
  then obtain h where h: "hyb_run counted_hyb_run (NewHybridForwarder 1 1 1) = Some h" by auto
  have c: "length (filter succeeded (pool_sends counted_pool_run)) = 1"
    "length (filter (\<lambda>out. \<not> succeeded out) (pool_sends counted_pool_run)) = 2"
    "length (filter succeeded (sem_sends counted_sem_run)) = 1"
    "length (filter (\<lambda>out. \<not> succeeded out) (sem_sends counted_sem_run)) = 1"
    "length (filter succeeded (hyb_sends counted_hyb_run)) = 0"
    "length (filter (\<lambda>out. \<not> succeeded out) (hyb_sends counted_hyb_run)) = 1"
    by (simp_all add: counted_pool_run_def counted_sem_run_def counted_hyb_run_def succeeded_def)
  from job_counters [of counted_pool_run 4 1 1 p counted_sem_run 2 s counted_hyb_run 1 1 1 h]
    p s h c
  show ?thesis by simp
qed












subsection \<open>Stopping\<close>

lemma list_all_nth: "list_all P xs \<Longrightarrow> i < length xs \<Longrightarrow> P (xs ! i)"
  by (simp add: list_all_length)

lemma pool_step_halted:
  assumes "pool_halted p" "pool_step e p = Some p'"
  shows "pool_halted p' \<and> posts (env p') = posts (env p)"
proof (cases e)
  case (PRecv i)
  with assms list_all_nth [of "\<lambda>w. w = Exited" "workers p" i] show ?thesis
    by (auto simp: pool_halted_def Pool_worker_recv_def split: if_splits)
next
  case (PSend i out)
  with assms list_all_nth [of "\<lambda>w. w = Exited" "workers p" i] show ?thesis
    by (auto simp: pool_halted_def Pool_worker_send_def split: if_splits wstate.splits)
next
  case (PExit i)
  with assms list_all_nth [of "\<lambda>w. w = Exited" "workers p" i] show ?thesis
    by (auto simp: pool_halted_def Pool_worker_exit_def split: if_splits)
qed (use assms in \<open>auto simp: pool_halted_def Pool_Start_def Pool_Stop_close_def
       Pool_Stop_done_def Pool_Stop_timeout_def SubmitJob_def Let_def split: if_splits\<close>)

lemma pool_run_halted:
  "pool_halted p \<Longrightarrow> pool_run es p = Some p' \<Longrightarrow> posts (env p') = posts (env p)"
proof (induction es arbitrary: p)
  case Nil
  then show ?case by simp
next
  case (Cons e es)
  from Cons.prems obtain q where s: "pool_step e p = Some q" and r: "pool_run es q = Some p'"
    by (auto split: option.splits)
  from pool_step_halted [OF Cons.prems(1) s] Cons.IH [OF _ r] show ?case by simp
qed

lemma sem_step_halted:
  assumes "sem_halted s" "sem_step e s = Some s'"
  shows "sem_halted s' \<and> posts (s_env s') = posts (s_env s)"
proof (cases e)
  case (SAcquire g)
  with assms list_all_nth [of "\<lambda>g. g = Finished" "goroutines s" g] show ?thesis
    by (auto simp: sem_halted_def Semaphore_acquire_def split: if_splits gstate.splits)
next
  case (SSend g out)
  with assms list_all_nth [of "\<lambda>g. g = Finished" "goroutines s" g] show ?thesis
    by (auto simp: sem_halted_def Semaphore_send_def split: if_splits gstate.splits)
qed (use assms in \<open>auto simp: sem_halted_def Semaphore_Start_def Semaphore_Stop_store_def
       Semaphore_Stop_done_def Semaphore_Stop_timeout_def Semaphore_Submit_def Semaphore_Submit_load_def
                 Semaphore_Submit_go_def split: if_splits\<close>)

lemma sem_run_halted:
  "sem_halted s \<Longrightarrow> sem_run es s = Some s' \<Longrightarrow> posts (s_env s') = posts (s_env s)"
proof (induction es arbitrary: s)
  case Nil
  then show ?case by simp
next
  case (Cons e es)
  from Cons.prems obtain q where s: "sem_step e s = Some q" and r: "sem_run es q = Some s'"
    by (auto split: option.splits)
  from sem_step_halted [OF Cons.prems(1) s] Cons.IH [OF _ r] show ?case by simp
qed

lemma hyb_step_halted:
  assumes "hyb_halted h" "hyb_step e h = Some h'"
  shows "hyb_halted h' \<and> posts (h_env h') = posts (h_env h)"
proof (cases e)
  case (HRecv i)
  with assms list_all_nth [of "\<lambda>w. w = DExited" "h_workers h" i] show ?thesis
    by (auto simp: hyb_halted_def Hybrid_worker_recv_def split: if_splits)
next
  case (HSpawn i)
  with assms list_all_nth [of "\<lambda>w. w = DExited" "h_workers h" i] show ?thesis
    by (auto simp: hyb_halted_def Hybrid_worker_spawn_def split: if_splits dstate.splits)
next
  case (HSend k out)
  with assms list_all_nth [of "\<lambda>x. x = SenderDone" "h_senders h" k] show ?thesis
    by (auto simp: hyb_halted_def Hybrid_send_def split: if_splits sender.splits)
next
  case (HExit i)
  with assms list_all_nth [of "\<lambda>w. w = DExited" "h_workers h" i] show ?thesis
    by (auto simp: hyb_halted_def Hybrid_worker_exit_def split: if_splits)
qed (use assms in \<open>auto simp: hyb_halted_def Hybrid_Start_def Hybrid_Stop_close_def
       Hybrid_Stop_done_def Hybrid_Stop_timeout_def Hybrid_Submit_def Let_def split: if_splits\<close>)

lemma hyb_run_halted:
  "hyb_halted h \<Longrightarrow> hyb_run es h = Some h' \<Longrightarrow> posts (h_env h') = posts (h_env h)"
proof (induction es arbitrary: h)
  case Nil
  then show ?case by simp
next
  case (Cons e es)
  from Cons.prems obtain q where s: "hyb_step e h = Some q" and r: "hyb_run es q = Some h'"
    by (auto split: option.splits)
  from hyb_step_halted [OF Cons.prems(1) s] Cons.IH [OF _ r] show ?case by simp
qed

lemma sem_step_inv: "sem_inv s \<Longrightarrow> sem_step e s = Some s' \<Longrightarrow> sem_inv s'"
  by (cases e)
     (auto simp: sem_inv_def Semaphore_Start_def Semaphore_Stop_store_def Semaphore_Stop_done_def
                 Semaphore_Stop_timeout_def Semaphore_Submit_def Semaphore_Submit_load_def
                 Semaphore_Submit_go_def Semaphore_acquire_def
                 Semaphore_send_def Let_def
           split: if_splits gstate.splits)

lemma sem_run_inv: "sem_inv s \<Longrightarrow> sem_run es s = Some s' \<Longrightarrow> sem_inv s'"
proof (induction es arbitrary: s)
  case Nil
  then show ?case by simp
next
  case (Cons e es)
  then show ?case by (auto split: option.splits dest: sem_step_inv)
qed

lemma hyb_step_inv: "hyb_inv h \<Longrightarrow> hyb_step e h = Some h' \<Longrightarrow> hyb_inv h'"
  by (cases e)
     (auto simp: hyb_inv_def Hybrid_Start_def Hybrid_Stop_close_def Hybrid_Stop_done_def
                 Hybrid_Stop_timeout_def Hybrid_Submit_def Hybrid_worker_recv_def
                 Hybrid_worker_spawn_def Hybrid_send_def Hybrid_worker_exit_def Let_def
           split: if_splits list.splits dstate.splits sender.splits)

lemma hyb_run_inv: "hyb_inv h \<Longrightarrow> hyb_run es h = Some h' \<Longrightarrow> hyb_inv h'"
proof (induction es arbitrary: h)
  case Nil
  then show ?case by simp
next
  case (Cons e es)
  then show ?case by (auto split: option.splits dest: hyb_step_inv)
qed

lemma constructors_inv: "sem_inv (NewSemaphoreForwarder m)" "hyb_inv (NewHybridForwarder w q m)"
  by (simp_all add: sem_inv_def hyb_inv_def NewSemaphoreForwarder_def NewHybridForwarder_def Let_def)

text \<open>
  C6, as amended. Once \<open>Stop\<close> has returned because its wait completed, on a
  forwarder that had been started, no further request is handed to \<open>client.Do\<close>,
  whatever happens next (further submits, starts, stops). For the semaphore forwarder
  this is for a \<open>Stop\<close> that returns while no \<open>Submit\<close> is under way between its
  read of \<open>stopped\<close> and its \<open>wg.Add(1)\<close>.
\<close>

theorem no_post_after_stop_done:
  "(startOnce p1 \<and> Pool_Stop_done p1 = Some p2 \<and> pool_run pes p2 = Some p3
      \<longrightarrow> posts (env p3) = posts (env p2)) \<and>
   (sem_run ses0 (NewSemaphoreForwarder m) = Some s1 \<and> submitting s1 = [] \<and>
    Semaphore_Stop_done s1 = Some s2 \<and> sem_run ses s2 = Some s3
      \<longrightarrow> posts (s_env s3) = posts (s_env s2)) \<and>
   (hyb_run hes0 (NewHybridForwarder w q m') = Some h1 \<and> h_startOnce h1 \<and>
    Hybrid_Stop_done h1 = Some h2 \<and> hyb_run hes h2 = Some h3
      \<longrightarrow> posts (h_env h3) = posts (h_env h2))"
proof (intro conjI impI)
  assume a: "startOnce p1 \<and> Pool_Stop_done p1 = Some p2 \<and> pool_run pes p2 = Some p3"
  then have "pool_halted p2"
    by (auto simp: pool_halted_def Pool_Stop_done_def split: if_splits)
  with a show "posts (env p3) = posts (env p2)" by (auto dest: pool_run_halted)
next
  assume a: "sem_run ses0 (NewSemaphoreForwarder m) = Some s1 \<and> submitting s1 = [] \<and>
    Semaphore_Stop_done s1 = Some s2 \<and> sem_run ses s2 = Some s3"
  then have "sem_inv s1" by (auto intro: sem_run_inv constructors_inv)
  with a have "sem_halted s2"
    by (auto simp: sem_halted_def sem_inv_def Semaphore_Stop_done_def split: if_splits)
  with a show "posts (s_env s3) = posts (s_env s2)" by (auto dest: sem_run_halted)
next
  assume a: "hyb_run hes0 (NewHybridForwarder w q m') = Some h1 \<and> h_startOnce h1 \<and>
    Hybrid_Stop_done h1 = Some h2 \<and> hyb_run hes h2 = Some h3"
  then have "hyb_inv h1" by (auto intro: hyb_run_inv constructors_inv)
  with a have "hyb_halted h2"
    by (auto simp: hyb_halted_def hyb_inv_def Hybrid_Stop_done_def split: if_splits)
  with a show "posts (h_env h3) = posts (h_env h2)" by (auto dest: hyb_run_halted)
qed

text \<open>
  When \<open>Stop\<close> returns on its timeout with a job still queued, the worker takes the
  job afterwards and posts it.
\<close>

theorem post_after_timeout_counterexample:
  "map_option stopPhase (pool_run timeout_run (NewPool 4 1 1)) = Some StopTimedOut \<and>
   map_option (posts \<circ> env) (pool_run timeout_run (NewPool 4 1 1)) = Some [] \<and>
   map_option (posts \<circ> env)
     (pool_run (timeout_run @ [PRecv 0, PSend 0 (Responds 200)]) (NewPool 4 1 1))
     = Some [new_request job0]"
  by code_simp

text \<open>
  C7, as amended. The expiry of the shutdown timeout only makes \<open>Stop\<close> return: the
  queue, the workers and goroutines, the counters are as before, so a task accepted but
  not yet picked up stays where it is and \<open>jobs_failed_total\<close> does not count it.
  In a run of the pool without a send step no counter moves.
\<close>

theorem timeout_counts_nothing:
  "(Pool_Stop_timeout p = Some p' \<longrightarrow>
      jobQueue p' = jobQueue p \<and> jobQueueSenders p' = jobQueueSenders p \<and>
      workers p' = workers p \<and> env p' = env p) \<and>
   (Semaphore_Stop_timeout s = Some s' \<longrightarrow>
      goroutines s' = goroutines s \<and> s_env s' = s_env s) \<and>
   (Hybrid_Stop_timeout h = Some h' \<longrightarrow>
      h_jobQueue h' = h_jobQueue h \<and> h_workers h' = h_workers h \<and> h_env h' = h_env h) \<and>
   (pool_run es p0 = Some p'' \<and> pool_sends es = [] \<longrightarrow>
      JobsFailedCounter (env p'') = JobsFailedCounter (env p0) \<and>
      JobsProcessedCounter (env p'') = JobsProcessedCounter (env p0))"
proof (intro conjI impI)
  assume "pool_run es p0 = Some p'' \<and> pool_sends es = []"
  then have r: "pool_run es p0 = Some p''" and e: "pool_sends es = []" by simp_all
  from pool_run_counters [OF r] e
  show "JobsFailedCounter (env p'') = JobsFailedCounter (env p0)"
    and "JobsProcessedCounter (env p'') = JobsProcessedCounter (env p0)" by simp_all
qed (auto simp: Pool_Stop_timeout_def Semaphore_Stop_timeout_def Hybrid_Stop_timeout_def
       split: if_splits)

text \<open>After the timeout the accepted job is still queued and no failure is counted.\<close>

theorem queued_task_not_failed_counterexample:
  "map_option stopPhase (pool_run timeout_run (NewPool 4 1 1)) = Some StopTimedOut \<and>
   map_option jobQueue (pool_run timeout_run (NewPool 4 1 1)) = Some [job0] \<and>
   map_option (JobsFailedCounter \<circ> env) (pool_run timeout_run (NewPool 4 1 1)) = Some 0"
  by code_simp

text \<open>
  C4. A submit to the pooled forwarder after \<open>Stop\<close> has returned: the pool takes a
  permit and sends on the closed job queue, which panics. The hybrid forwarder returns
  an error there and the semaphore forwarder returns nil and drops the task.
\<close>

theorem pool_submit_after_stop_panics:
  "map_option stopPhase (pool_run graceful_run (NewPool 4 1 1)) = Some StopDone \<and>
   map_option (fst \<circ> PoolForwarder_Submit [104, 105] ''http://collector:4318/v1/logs'' [] \<circ> Some)
     (pool_run graceful_run (NewPool 4 1 1))
   = Some (Panics ''send on closed channel'')"
  by code_simp


theorem no_post_after_stop_done_witness:
  "startOnce drained_pool \<and>
   Pool_Stop_done drained_pool = Some (pool_after [PStopDone] drained_pool) \<and>
   pool_run [PSubmit job0, PStart] (pool_after [PStopDone] drained_pool)
     = Some (pool_after [PStopDone, PSubmit job0, PStart] drained_pool) \<and>
   posts (env (pool_after [PStopDone, PSubmit job0, PStart] drained_pool))
     = posts (env (pool_after [PStopDone] drained_pool)) \<and>
   sem_run drained_sem_run (NewSemaphoreForwarder 2)
     = Some (sem_after drained_sem_run (NewSemaphoreForwarder 2)) \<and>
   submitting (sem_after drained_sem_run (NewSemaphoreForwarder 2)) = [] \<and>
   Semaphore_Stop_done (sem_after drained_sem_run (NewSemaphoreForwarder 2))
     = Some (sem_after (drained_sem_run @ [SStopDone]) (NewSemaphoreForwarder 2)) \<and>
   sem_run [SSubmit [104, 105] ''http://collector:4318/v1/traces'' []]
       (sem_after (drained_sem_run @ [SStopDone]) (NewSemaphoreForwarder 2))
     = Some (sem_after (drained_sem_run @ [SStopDone,
               SSubmit [104, 105] ''http://collector:4318/v1/traces'' []])
             (NewSemaphoreForwarder 2)) \<and>
   posts (s_env (sem_after (drained_sem_run @ [SStopDone,
               SSubmit [104, 105] ''http://collector:4318/v1/traces'' []])
             (NewSemaphoreForwarder 2)))
     = posts (s_env (sem_after (drained_sem_run @ [SStopDone]) (NewSemaphoreForwarder 2))) \<and>
   hyb_run drained_hyb_run (NewHybridForwarder 1 1 1)
     = Some (hyb_after drained_hyb_run (NewHybridForwarder 1 1 1)) \<and>
   h_startOnce (hyb_after drained_hyb_run (NewHybridForwarder 1 1 1)) \<and>
   Hybrid_Stop_done (hyb_after drained_hyb_run (NewHybridForwarder 1 1 1))
     = Some (hyb_after (drained_hyb_run @ [HStopDone]) (NewHybridForwarder 1 1 1)) \<and>
   hyb_run [HSubmit [104, 105] ''http://collector:4318/v1/traces'' []]
       (hyb_after (drained_hyb_run @ [HStopDone]) (NewHybridForwarder 1 1 1))
     = Some (hyb_after (drained_hyb_run @ [HStopDone,
               HSubmit [104, 105] ''http://collector:4318/v1/traces'' []])
             (NewHybridForwarder 1 1 1)) \<and>
   posts (h_env (hyb_after (drained_hyb_run @ [HStopDone,
               HSubmit [104, 105] ''http://collector:4318/v1/traces'' []])
             (NewHybridForwarder 1 1 1)))
     = posts (h_env (hyb_after (drained_hyb_run @ [HStopDone]) (NewHybridForwarder 1 1 1)))"
proof -
  have p: "startOnce drained_pool \<and>
     Pool_Stop_done drained_pool = Some (pool_after [PStopDone] drained_pool) \<and>
     pool_run [PSubmit job0, PStart] (pool_after [PStopDone] drained_pool)
       = Some (pool_after [PStopDone, PSubmit job0, PStart] drained_pool)"
    by code_simp
  have s: "sem_run drained_sem_run (NewSemaphoreForwarder 2)
       = Some (sem_after drained_sem_run (NewSemaphoreForwarder 2)) \<and>
     submitting (sem_after drained_sem_run (NewSemaphoreForwarder 2)) = [] \<and>
     Semaphore_Stop_done (sem_after drained_sem_run (NewSemaphoreForwarder 2))
       = Some (sem_after (drained_sem_run @ [SStopDone]) (NewSemaphoreForwarder 2)) \<and>
     sem_run [SSubmit [104, 105] ''http://collector:4318/v1/traces'' []]
         (sem_after (drained_sem_run @ [SStopDone]) (NewSemaphoreForwarder 2))
       = Some (sem_after (drained_sem_run @ [SStopDone,
                 SSubmit [104, 105] ''http://collector:4318/v1/traces'' []])
               (NewSemaphoreForwarder 2))"
    by code_simp
  have h: "hyb_run drained_hyb_run (NewHybridForwarder 1 1 1)
       = Some (hyb_after drained_hyb_run (NewHybridForwarder 1 1 1)) \<and>
     h_startOnce (hyb_after drained_hyb_run (NewHybridForwarder 1 1 1)) \<and>
     Hybrid_Stop_done (hyb_after drained_hyb_run (NewHybridForwarder 1 1 1))
       = Some (hyb_after (drained_hyb_run @ [HStopDone]) (NewHybridForwarder 1 1 1)) \<and>
     hyb_run [HSubmit [104, 105] ''http://collector:4318/v1/traces'' []]
         (hyb_after (drained_hyb_run @ [HStopDone]) (NewHybridForwarder 1 1 1))
       = Some (hyb_after (drained_hyb_run @ [HStopDone,
                 HSubmit [104, 105] ''http://collector:4318/v1/traces'' []])
               (NewHybridForwarder 1 1 1))"
    by code_simp
  note t = no_post_after_stop_done
    [of drained_pool "pool_after [PStopDone] drained_pool" "[PSubmit job0, PStart]"
        "pool_after [PStopDone, PSubmit job0, PStart] drained_pool"
        drained_sem_run 2 "sem_after drained_sem_run (NewSemaphoreForwarder 2)"
        "sem_after (drained_sem_run @ [SStopDone]) (NewSemaphoreForwarder 2)"
        "[SSubmit [104, 105] ''http://collector:4318/v1/traces'' []]"
        "sem_after (drained_sem_run @ [SStopDone,
                 SSubmit [104, 105] ''http://collector:4318/v1/traces'' []])
               (NewSemaphoreForwarder 2)"
        drained_hyb_run 1 1 1 "hyb_after drained_hyb_run (NewHybridForwarder 1 1 1)"
        "hyb_after (drained_hyb_run @ [HStopDone]) (NewHybridForwarder 1 1 1)"
        "[HSubmit [104, 105] ''http://collector:4318/v1/traces'' []]"
        "hyb_after (drained_hyb_run @ [HStopDone,
                 HSubmit [104, 105] ''http://collector:4318/v1/traces'' []])
               (NewHybridForwarder 1 1 1)"]
  from t p have "posts (env (pool_after [PStopDone, PSubmit job0, PStart] drained_pool))
     = posts (env (pool_after [PStopDone] drained_pool))" by blast
  moreover from t s have "posts (s_env (sem_after (drained_sem_run @ [SStopDone,
               SSubmit [104, 105] ''http://collector:4318/v1/traces'' []])
             (NewSemaphoreForwarder 2)))
     = posts (s_env (sem_after (drained_sem_run @ [SStopDone]) (NewSemaphoreForwarder 2)))"
    by blast
  moreover from t h have "posts (h_env (hyb_after (drained_hyb_run @ [HStopDone,
               HSubmit [104, 105] ''http://collector:4318/v1/traces'' []])
             (NewHybridForwarder 1 1 1)))
     = posts (h_env (hyb_after (drained_hyb_run @ [HStopDone]) (NewHybridForwarder 1 1 1)))"
    by blast
  ultimately show ?thesis using p s h by blast
qed

theorem timeout_counts_nothing_witness:
  "Pool_Stop_timeout (pool_after [PStart, PSubmit job0, PStopClose] (NewPool 4 1 1))
     = Some (pool_after timeout_run (NewPool 4 1 1)) \<and>
   jobQueue (pool_after timeout_run (NewPool 4 1 1)) = [job0] \<and>
   env (pool_after timeout_run (NewPool 4 1 1)) = world0 \<and>
   Semaphore_Stop_timeout (sem_after [SStopStore] (NewSemaphoreForwarder 2))
     = Some (sem_after [SStopStore, SStopTimeout] (NewSemaphoreForwarder 2)) \<and>
   s_env (sem_after [SStopStore, SStopTimeout] (NewSemaphoreForwarder 2)) = world0 \<and>
   Hybrid_Stop_timeout (hyb_after [HStopClose] (NewHybridForwarder 1 1 1))
     = Some (hyb_after [HStopClose, HStopTimeout] (NewHybridForwarder 1 1 1)) \<and>
   h_env (hyb_after [HStopClose, HStopTimeout] (NewHybridForwarder 1 1 1)) = world0 \<and>
   pool_run timeout_run (NewPool 4 1 1) = Some (pool_after timeout_run (NewPool 4 1 1)) \<and>
   pool_sends timeout_run = [] \<and>
   JobsFailedCounter (env (pool_after timeout_run (NewPool 4 1 1))) = 0"
proof -
  have a: "Pool_Stop_timeout (pool_after [PStart, PSubmit job0, PStopClose] (NewPool 4 1 1))
       = Some (pool_after timeout_run (NewPool 4 1 1))"
    "Semaphore_Stop_timeout (sem_after [SStopStore] (NewSemaphoreForwarder 2))
       = Some (sem_after [SStopStore, SStopTimeout] (NewSemaphoreForwarder 2))"
    "Hybrid_Stop_timeout (hyb_after [HStopClose] (NewHybridForwarder 1 1 1))
       = Some (hyb_after [HStopClose, HStopTimeout] (NewHybridForwarder 1 1 1))"
    "pool_run timeout_run (NewPool 4 1 1) = Some (pool_after timeout_run (NewPool 4 1 1))"
    "pool_sends timeout_run = []"
    by code_simp+
  have b: "jobQueue (pool_after [PStart, PSubmit job0, PStopClose] (NewPool 4 1 1)) = [job0]"
    "env (pool_after [PStart, PSubmit job0, PStopClose] (NewPool 4 1 1)) = world0"
    "s_env (sem_after [SStopStore] (NewSemaphoreForwarder 2)) = world0"
    "h_env (hyb_after [HStopClose] (NewHybridForwarder 1 1 1)) = world0"
    "JobsFailedCounter (env (NewPool 4 1 1)) = 0"
    by code_simp+
  note t = timeout_counts_nothing
    [of "pool_after [PStart, PSubmit job0, PStopClose] (NewPool 4 1 1)"
        "pool_after timeout_run (NewPool 4 1 1)"
        "sem_after [SStopStore] (NewSemaphoreForwarder 2)"
        "sem_after [SStopStore, SStopTimeout] (NewSemaphoreForwarder 2)"
        "hyb_after [HStopClose] (NewHybridForwarder 1 1 1)"
        "hyb_after [HStopClose, HStopTimeout] (NewHybridForwarder 1 1 1)"
        timeout_run "NewPool 4 1 1" "pool_after timeout_run (NewPool 4 1 1)"]
  from t a b show ?thesis by (simp add: world0_def)
qed


lemma Hybrid_Submit_stopped:
  "h_stopped h \<Longrightarrow>
   Hybrid_Submit body url headers h = (ReturnsErr ''hybrid forwarder stopped'', h)"
  by (simp add: Hybrid_Submit_def)

text \<open>
  An uninterrupted \<open>Submit\<close> is its two steps one after the other.
\<close>

lemma Semaphore_Submit_steps:
  "submitting s = [] \<Longrightarrow> \<not> stopped s \<Longrightarrow>
   Semaphore_Submit_go 0 (Semaphore_Submit_load body url headers s)
     = Some (snd (Semaphore_Submit body url headers s))"
  by (simp add: Semaphore_Submit_go_def Semaphore_Submit_load_def Semaphore_Submit_def)

text \<open>
  A \<open>Submit\<close> of the semaphore forwarder that has read \<open>stopped\<close> as false before
  \<open>Stop\<close> is not counted in the wait group yet: \<open>Stop\<close> returns with its wait
  completed, and the call then spawns its sender, which posts.
\<close>

lemma semaphore_submit_race:
  "map_option s_stopPhase
     (sem_run [SStart, SSubmitLoad [104, 105] ''http://collector:4318/v1/traces'' [],
               SStopStore, SStopDone] (NewSemaphoreForwarder 2)) = Some StopDone \<and>
   map_option (posts \<circ> s_env)
     (sem_run [SStart, SSubmitLoad [104, 105] ''http://collector:4318/v1/traces'' [],
               SStopStore, SStopDone] (NewSemaphoreForwarder 2)) = Some [] \<and>
   map_option (length \<circ> posts \<circ> s_env)
     (sem_run [SStart, SSubmitLoad [104, 105] ''http://collector:4318/v1/traces'' [],
               SStopStore, SStopDone, SSubmitGo 0, SAcquire 0, SSend 0 (Responds 200)]
        (NewSemaphoreForwarder 2)) = Some 1"
  by code_simp

lemma Semaphore_Submit_stopped:
  "stopped s \<Longrightarrow> Semaphore_Submit body url headers s = (ReturnsNil, s)"
  by (simp add: Semaphore_Submit_def)

lemma SubmitJob_closed:
  "jobQueueClosed p \<Longrightarrow>
   fst (SubmitJob job p) =
     (if permits p < permitsCap p then Panics ''send on closed channel''
      else ReturnsErr ''worker pool queue full'')"
  by (simp add: SubmitJob_def Let_def)

subsection \<open>Blocked submits and delivery in the pool\<close>

lemma pool_step_alive:
  assumes "pool_alive p" "pool_step e p = Some p'"
  shows "pool_alive p'"
proof (cases e)
  case (PRecv i)
  with assms show ?thesis
    by (auto simp: pool_alive_def Pool_worker_recv_def split: if_splits list.splits
             dest!: set_update_subset_insert [THEN subsetD])
next
  case (PSend i out)
  with assms show ?thesis
    by (auto simp: pool_alive_def Pool_worker_send_def Let_def split: if_splits wstate.splits
             dest!: set_update_subset_insert [THEN subsetD])
next
  case (PExit i)
  with assms show ?thesis
    by (auto simp: pool_alive_def Pool_worker_exit_def split: if_splits)
qed (use assms in \<open>auto simp: pool_alive_def Pool_Start_def Pool_Stop_close_def
       Pool_Stop_done_def Pool_Stop_timeout_def SubmitJob_def Let_def split: if_splits\<close>)

lemma pool_run_alive: "pool_alive p \<Longrightarrow> pool_run es p = Some p' \<Longrightarrow> pool_alive p'"
proof (induction es arbitrary: p)
  case Nil
  then show ?case by simp
next
  case (Cons e es)
  then show ?case by (auto split: option.splits dest: pool_step_alive)
qed

lemma NewPool_alive: "pool_alive (NewPool n w q)"
  by (simp add: pool_alive_def NewPool_def Let_def)

lemma some_not_busy:
  "length (filter busy ws) < length ws \<Longrightarrow> \<exists>i < length ws. \<not> busy (ws ! i)"
proof (induction ws)
  case Nil
  then show ?case by simp
next
  case (Cons w ws)
  show ?case
  proof (cases "busy w")
    case True
    with Cons obtain i where "i < length ws" "\<not> busy (ws ! i)" by auto
    then have "Suc i < length (w # ws)" "\<not> busy ((w # ws) ! Suc i)" by simp_all
    then show ?thesis by blast
  next
    case False
    then have "0 < length (w # ws)" "\<not> busy ((w # ws) ! 0)" by simp_all
    then show ?thesis by blast
  qed
qed

text \<open>
  A \<open>SubmitJob\<close> blocked on the full queue of a started pool does not stay blocked: some
  worker is idle and can receive, which lets the oldest blocked send complete.
\<close>

lemma blocked_submit_released:
  assumes run: "pool_run es (NewPool n w q) = Some p"
    and started: "startOnce p" and blocked: "jobQueueSenders p \<noteq> []"
  shows "\<exists>i p'. Pool_worker_recv i p = Some p' \<and>
           jobQueueSenders p' = tl (jobQueueSenders p)"
proof -
  from pool_run_inv [OF NewPool_inv run] have inv: "pool_inv p" .
  from pool_run_alive [OF NewPool_alive run] have alive: "pool_alive p" .
  from alive blocked have op: "\<not> jobQueueClosed p" by (auto simp: pool_alive_def)
  from inv blocked have full: "length (jobQueue p) = jobQueueCap p" by (simp add: pool_inv_def)
  from alive full obtain job rest where q: "jobQueue p = job # rest"
    by (cases "jobQueue p") (auto simp: pool_alive_def)
  from inv op have "holding_permit p \<le> workerCount p + jobQueueCap p"
    by (simp add: pool_inv_def)
  with full blocked alive started have "length (filter busy (workers p)) < length (workers p)"
    by (cases "jobQueueSenders p") (auto simp: holding_permit_def pool_alive_def)
  from some_not_busy [OF this] obtain i where i: "i < length (workers p)" "\<not> busy (workers p ! i)"
    by blast
  from alive op i(1) have "workers p ! i \<noteq> Exited"
    by (auto simp: pool_alive_def dest: nth_mem)
  with i(2) have "workers p ! i = Idle" by (cases "workers p ! i") simp_all
  with i(1) q have "\<exists>p'. Pool_worker_recv i p = Some p' \<and>
           jobQueueSenders p' = tl (jobQueueSenders p)"
    by (simp add: Pool_worker_recv_def drop_Suc)
  then show ?thesis by blast
qed

lemma pool_step_jobs:
  assumes "pool_step e p = Some p'"
  shows "held_jobs p' \<subseteq> held_jobs p \<union> set (pool_submits [e]) \<and>
         set (posts (env p')) \<subseteq> set (posts (env p)) \<union> new_request ` held_jobs p"
proof (cases e)
  case (PSubmit job)
  with assms show ?thesis
    by (auto simp: held_jobs_def SubmitJob_def Let_def split: if_splits)
next
  case (PRecv i)
  with assms show ?thesis
    by (auto simp: held_jobs_def Pool_worker_recv_def split: if_splits list.splits
             dest!: set_update_subset_insert [THEN subsetD] in_set_takeD in_set_dropD)
next
  case (PSend i out)
  with assms obtain job where j: "i < length (workers p)" "workers p ! i = Busy job"
    and p': "p' = p\<lparr>env := (send_job out job (env p))
                           \<lparr>ActiveWorkersGauge := ActiveWorkersGauge (send_job out job (env p)) - 1\<rparr>,
                     permits := permits p - 1, workers := (workers p)[i := Idle]\<rparr>"
    by (auto simp: Pool_worker_send_def Let_def split: if_splits wstate.splits)
  from j have "Busy job \<in> set (workers p)" by (metis nth_mem)
  then have h: "job \<in> held_jobs p" by (simp add: held_jobs_def)
  have "set (posts (send_job out job (env p))) \<subseteq> set (posts (env p)) \<union> {new_request job}"
    by (cases out) (auto simp: send_job_def Let_def)
  with h PSend show ?thesis
    by (auto simp: p' held_jobs_def dest!: set_update_subset_insert [THEN subsetD])
next
  case (PExit i)
  with assms show ?thesis
    by (auto simp: held_jobs_def Pool_worker_exit_def split: if_splits
             dest!: set_update_subset_insert [THEN subsetD])
qed (use assms in \<open>auto simp: held_jobs_def Pool_Start_def Pool_Stop_close_def
       Pool_Stop_done_def Pool_Stop_timeout_def split: if_splits\<close>)

lemma pool_submits_Cons: "pool_submits (e # es) = pool_submits [e] @ pool_submits es"
  by (cases e) simp_all

lemma pool_run_jobs:
  "pool_run es p = Some p' \<Longrightarrow>
   held_jobs p' \<subseteq> held_jobs p \<union> set (pool_submits es) \<and>
   set (posts (env p')) \<subseteq> set (posts (env p)) \<union> new_request ` (held_jobs p \<union> set (pool_submits es))"
proof (induction es arbitrary: p)
  case Nil
  then show ?case by simp
next
  case (Cons e es)
  from Cons.prems obtain q where s: "pool_step e p = Some q" and r: "pool_run es q = Some p'"
    by (auto split: option.splits)
  from pool_step_jobs [OF s] Cons.IH [OF r] show ?case
    by (subst (1 2) pool_submits_Cons) (simp, blast)
qed

text \<open>Every request the pool's workers post is built from a job that was submitted.\<close>

lemma pool_posts_submitted:
  assumes "pool_run es (NewPool n w q) = Some p" and "r \<in> set (posts (env p))"
  shows "\<exists>job \<in> set (pool_submits es). r = new_request job"
proof -
  have "held_jobs (NewPool n w q) = {}" "posts (env (NewPool n w q)) = []"
    by (simp_all add: held_jobs_def NewPool_def Let_def world0_def)
  with pool_run_jobs [OF assms(1)] assms(2) show ?thesis by auto
qed

end
